theory Spec2Isabelle
  imports Complex_Main "HOL-Library.AList" "HOL-Library.Sublist"
begin

section \<open>SATpwn: activity inference, auto-mode decision and the AP/client memory\<close>

text \<open>
  A shallow embedding of \<^verbatim>\<open>src/SATpwn.py\<close> (class \<^verbatim>\<open>SATpwn\<close>). The plugin object is a
  record that every handler takes and returns. Each call of \<^verbatim>\<open>time.time()\<close> is an
  argument of the function that makes it, a \<^typ>\<open>real\<close> number of seconds (the rounding
  of Python's floats is not modelled). The store \<^verbatim>\<open>self.memory\<close> is whatever
  \<^verbatim>\<open>json.load\<close> returned or the handlers built, so it is a value of the type of JSON
  documents, and the operations on it raise where Python's would.
\<close>

subsection \<open>JSON values and the Python operations used on them\<close>

text \<open>
  A \<^verbatim>\<open>dict\<close> is an association list in insertion order that holds each key once
  (\<^verbatim>\<open>json.load\<close> keeps one value per key); \<^const>\<open>AList.update\<close> is item assignment:
  it replaces the value in place or appends a new key.
\<close>

datatype json =
    JNull
  | JBool bool
  | JNum real
  | JStr string
  | JArr "json list"
  | JObj "(string \<times> json) list"

datatype py_error = TypeError | KeyError | AttributeError

text \<open>The operand of \<^verbatim>\<open>now - v\<close>: an int or float, or a bool (Python's \<^verbatim>\<open>True\<close> is 1).\<close>

fun py_num :: "json \<Rightarrow> real option" where
  "py_num (JNum r) = Some r"
| "py_num (JBool b) = Some (if b then 1 else 0)"
| "py_num _ = None"

text \<open>\<^verbatim>\<open>d.get(k, default)\<close>; an object that is no dict has no \<^verbatim>\<open>get\<close>.\<close>

fun py_get :: "json \<Rightarrow> string \<Rightarrow> json \<Rightarrow> py_error + json" where
  "py_get (JObj al) k d = Inr (case map_of al k of None \<Rightarrow> d | Some v \<Rightarrow> v)"
| "py_get _ k d = Inl AttributeError"

text \<open>\<^verbatim>\<open>k in x\<close> for a string \<^verbatim>\<open>k\<close>: a key of a dict, an element of a list, a substring
  of a string; the other values are not iterable.\<close>

fun py_in :: "string \<Rightarrow> json \<Rightarrow> py_error + bool" where
  "py_in k (JObj al) = Inr (k \<in> set (map fst al))"
| "py_in k (JArr xs) = Inr (JStr k \<in> set xs)"
| "py_in k (JStr s) = Inr (sublist k s)"
| "py_in k _ = Inl TypeError"

text \<open>\<^verbatim>\<open>x[k]\<close> for a string \<^verbatim>\<open>k\<close>.\<close>

fun py_getitem :: "json \<Rightarrow> string \<Rightarrow> py_error + json" where
  "py_getitem (JObj al) k = (case map_of al k of None \<Rightarrow> Inl KeyError | Some v \<Rightarrow> Inr v)"
| "py_getitem _ k = Inl TypeError"

text \<open>\<^verbatim>\<open>len(x)\<close>, which the debug messages evaluate.\<close>

fun py_len :: "json \<Rightarrow> py_error + nat" where
  "py_len (JObj al) = Inr (length al)"
| "py_len (JArr xs) = Inr (length xs)"
| "py_len (JStr s) = Inr (length s)"
| "py_len _ = Inl TypeError"

text \<open>\<^verbatim>\<open>str.lower()\<close> on ASCII letters; other characters are left as they are.\<close>

definition lower_char :: "char \<Rightarrow> char" where
  "lower_char c =
     (let n = (of_char c :: nat) in if 65 \<le> n \<and> n \<le> 90 then char_of (n + 32) else c)"

definition lower :: "string \<Rightarrow> string" where
  "lower s = map lower_char s"

subsection \<open>Constants and plugin state\<close>

definition AP_EXPIRY_SECONDS :: real where "AP_EXPIRY_SECONDS = 3600 * 48"
definition CLIENT_EXPIRY_SECONDS :: real where "CLIENT_EXPIRY_SECONDS = 3600 * 24"
definition DRIVE_BY_AP_EXPIRY_SECONDS :: real where "DRIVE_BY_AP_EXPIRY_SECONDS = 1800"
definition DRIVE_BY_CLIENT_EXPIRY_SECONDS :: real where "DRIVE_BY_CLIENT_EXPIRY_SECONDS = 900"
definition STATIONARY_SECONDS :: real where "STATIONARY_SECONDS = 3600"
definition ACTIVITY_THRESHOLD :: nat where "ACTIVITY_THRESHOLD = 5"
definition ACTIVITY_WINDOW_SECONDS :: real where "ACTIVITY_WINDOW_SECONDS = 300"

definition modes :: "string list" where
  "modes = [''strict'', ''loose'', ''drive-by'', ''recon'', ''auto'']"

definition version :: string where
  "version = ''x88.0.7''"

datatype level = WARNING | ERROR

text \<open>
  The fields of \<^verbatim>\<open>__init__\<close> that the modelled handlers read or write. \<^verbatim>\<open>logged\<close> keeps
  the records of level WARNING and ERROR with the fixed part of their message; the
  \<^verbatim>\<open>logging.debug\<close> and \<^verbatim>\<open>logging.info\<close> calls change no state and are left out, except
  where formatting their message can raise.
\<close>

record plugin =
  ready :: bool
  memory :: json
  mode :: string
  memory_is_dirty :: bool
  last_activity_check :: real
  activity_history :: "(real \<times> nat) list"
  home_whitelist :: "string set"
  current_auto_submode :: "string option"
  stationary_start :: json
  logged :: "(level \<times> string) list"

text \<open>\<^verbatim>\<open>__init__\<close>, with the whitelist that \<^verbatim>\<open>_load_home_whitelist\<close> produced.\<close>

definition init :: "string set \<Rightarrow> plugin" where
  "init wl =
     \<lparr> ready = False, memory = JObj [], mode = modes ! 0, memory_is_dirty = True,
       last_activity_check = 0, activity_history = [], home_whitelist = wl,
       current_auto_submode = None, stationary_start = JNull, logged = [] \<rparr>"

subsection \<open>Activity tracker and motion classifier\<close>

text \<open>\<^verbatim>\<open>_update_activity_history\<close>: append the sample, keep those with \<^verbatim>\<open>t > cutoff\<close>.\<close>

definition update_activity_history :: "plugin \<Rightarrow> real \<Rightarrow> nat \<Rightarrow> plugin" where
  "update_activity_history s now new_ap_count =
     (let cutoff = now - ACTIVITY_WINDOW_SECONDS
      in s\<lparr>activity_history :=
             filter (\<lambda>(t, count). t > cutoff) (activity_history s @ [(now, new_ap_count)])\<rparr>)"

text \<open>The sum that \<^verbatim>\<open>_is_stationary\<close> and \<^verbatim>\<open>_is_moving\<close> both compute.\<close>

definition recent_activity :: "(real \<times> nat) list \<Rightarrow> real \<Rightarrow> nat" where
  "recent_activity hist now =
     sum_list (map snd (filter (\<lambda>(t, count). now - t \<le> ACTIVITY_WINDOW_SECONDS) hist))"

text \<open>
  \<^verbatim>\<open>_is_stationary\<close>. \<^verbatim>\<open>now - self._stationary_start\<close> raises TypeError when the
  restored timer is neither a number nor None; the state is then as it was.
\<close>

definition is_stationary :: "plugin \<Rightarrow> real \<Rightarrow> (py_error + bool) \<times> plugin" where
  "is_stationary s now =
     (let low_activity = recent_activity (activity_history s) now < ACTIVITY_THRESHOLD
      in if low_activity then
           (let s1 = (if stationary_start s = JNull then s\<lparr>stationary_start := JNum now\<rparr> else s)
            in case py_num (stationary_start s1) of
                 None \<Rightarrow> (Inl TypeError, s1)
               | Some start \<Rightarrow> (Inr (now - start \<ge> STATIONARY_SECONDS), s1))
         else
           (Inr False,
            if stationary_start s \<noteq> JNull then s\<lparr>stationary_start := JNull\<rparr> else s))"

definition is_moving :: "plugin \<Rightarrow> real \<Rightarrow> bool" where
  "is_moving s now = (recent_activity (activity_history s) now \<ge> ACTIVITY_THRESHOLD)"

subsection \<open>Home presence and the auto-mode decision\<close>

text \<open>
  The loop of \<^verbatim>\<open>_home_ssid_visible\<close> over \<^verbatim>\<open>self.memory.items()\<close>. \<^verbatim>\<open>ssid in whitelist\<close>
  hashes \<^verbatim>\<open>ssid\<close>: a list or dict raises TypeError, a number or None is no member of a set
  of strings.
\<close>

fun ssid_in :: "json \<Rightarrow> string set \<Rightarrow> py_error + bool" where
  "ssid_in (JStr x) wl = Inr (x \<in> wl)"
| "ssid_in (JArr xs) wl = Inl TypeError"
| "ssid_in (JObj al) wl = Inl TypeError"
| "ssid_in _ wl = Inr False"

fun home_scan :: "string set \<Rightarrow> (string \<times> json) list \<Rightarrow> py_error + bool" where
  "home_scan wl [] = Inr False"
| "home_scan wl ((ap_mac, ap) # rest) =
     (case py_get ap ''ssid'' (JStr '''') of
        Inl e \<Rightarrow> Inl e
      | Inr ssid \<Rightarrow>
          (case ssid_in ssid wl of
             Inl e \<Rightarrow> Inl e
           | Inr b \<Rightarrow> if b \<or> ap_mac \<in> wl then Inr True else home_scan wl rest))"

text \<open>\<^verbatim>\<open>_home_ssid_visible\<close>; its second debug message takes \<^verbatim>\<open>len(self.memory)\<close>.\<close>

definition home_ssid_visible :: "plugin \<Rightarrow> py_error + bool" where
  "home_ssid_visible s =
     (case py_len (memory s) of
        Inl e \<Rightarrow> Inl e
      | Inr n \<Rightarrow>
          if home_whitelist s = {} then Inr False
          else (case memory s of
                  JObj al \<Rightarrow> home_scan (home_whitelist s) al
                | _ \<Rightarrow> Inl AttributeError))"

text \<open>
  \<^verbatim>\<open>_auto_mode_logic\<close>. The three inputs are computed before the priority test, so the
  stationary timer is updated also when a home network is visible. \<^verbatim>\<open>now_s\<close> and
  \<^verbatim>\<open>now_m\<close> are the clock readings of \<^verbatim>\<open>_is_stationary\<close> and \<^verbatim>\<open>_is_moving\<close>.
\<close>

definition auto_mode_logic :: "plugin \<Rightarrow> real \<Rightarrow> real \<Rightarrow> (py_error + string) \<times> plugin" where
  "auto_mode_logic s now_s now_m =
     (case home_ssid_visible s of
        Inl e \<Rightarrow> (Inl e, s)
      | Inr home_visible \<Rightarrow>
          (case is_stationary s now_s of
             (Inl e, s1) \<Rightarrow> (Inl e, s1)
           | (Inr stationary, s1) \<Rightarrow>
               (let moving = is_moving s1 now_m
                in if home_visible \<or> stationary then (Inr ''recon'', s1)
                   else if moving then (Inr ''drive-by'', s1)
                   else (case py_len (memory s1) of
                           Inl e \<Rightarrow> (Inl e, s1)
                         | Inr n \<Rightarrow> (Inr (if n < 10 then ''loose'' else ''strict''), s1)))))"

subsection \<open>Persistence\<close>

text \<open>
  What is at \<^verbatim>\<open>memory_path\<close>: no file, a file that \<^verbatim>\<open>open\<close> or \<^verbatim>\<open>json.load\<close> fails on,
  or a JSON document. A write either succeeds or raises inside \<^verbatim>\<open>_save_memory\<close>,
  leaving some content behind (the old file when \<^verbatim>\<open>open\<close> fails, a truncated one when
  \<^verbatim>\<open>json.dump\<close> does).
\<close>

datatype file_content = Absent | Garbage | Document json

datatype io = IoOk | IoFail file_content

definition memory_data :: "plugin \<Rightarrow> real \<Rightarrow> json" where
  "memory_data s now =
     JObj [(''plugin_metadata'',
              JObj [(''current_mode'', JStr (mode s)),
                    (''last_saved'', JNum now),
                    (''version'', JStr version),
                    (''stationary_start'', stationary_start s)]),
           (''ap_data'', memory s)]"

text \<open>\<^verbatim>\<open>_save_memory\<close>: returns nothing, also when the write failed.\<close>

definition save_memory :: "plugin \<Rightarrow> real \<Rightarrow> io \<Rightarrow> plugin \<times> file_content" where
  "save_memory s now w =
     (case w of
        IoOk \<Rightarrow> (s, Document (memory_data s now))
      | IoFail left \<Rightarrow> (s\<lparr>logged := logged s @ [(ERROR, ''Error saving memory'')]\<rparr>, left))"

text \<open>
  The body of the \<^verbatim>\<open>try\<close> in \<^verbatim>\<open>_load_memory\<close> once \<^verbatim>\<open>json.load\<close> has returned
  \<^verbatim>\<open>data\<close>. The last step is \<^verbatim>\<open>time.time() - last_saved\<close>, whose value only goes into an
  info message but which raises when \<^verbatim>\<open>last_saved\<close> is no number.
\<close>

definition restore_mode :: "plugin \<Rightarrow> json \<Rightarrow> plugin" where
  "restore_mode s saved_mode =
     (case saved_mode of
        JStr m \<Rightarrow>
          if m \<in> set modes then s\<lparr>mode := m\<rparr>
          else s\<lparr>mode := modes ! 0, logged := logged s @ [(WARNING, ''Invalid saved mode'')]\<rparr>
      | _ \<Rightarrow> s\<lparr>mode := modes ! 0, logged := logged s @ [(WARNING, ''Invalid saved mode'')]\<rparr>)"

definition load_document :: "plugin \<Rightarrow> json \<Rightarrow> (py_error + unit) \<times> plugin" where
  "load_document s data =
     (case py_in ''plugin_metadata'' data of
        Inl e \<Rightarrow> (Inl e, s)
      | Inr False \<Rightarrow> (Inr (), s\<lparr>memory := data, mode := modes ! 0\<rparr>)
      | Inr True \<Rightarrow>
          (case py_getitem data ''plugin_metadata'' of
             Inl e \<Rightarrow> (Inl e, s)
           | Inr metadata \<Rightarrow>
               (case py_get data ''ap_data'' (JObj []) of
                  Inl e \<Rightarrow> (Inl e, s)
                | Inr ap_data \<Rightarrow>
                    (let s1 = s\<lparr>memory := ap_data\<rparr>
                     in case py_get metadata ''current_mode'' (JStr (modes ! 0)) of
                          Inl e \<Rightarrow> (Inl e, s1)
                        | Inr saved_mode \<Rightarrow>
                            (let s2 = restore_mode s1 saved_mode
                             in case py_get metadata ''stationary_start'' JNull of
                                  Inl e \<Rightarrow> (Inl e, s2)
                                | Inr start \<Rightarrow>
                                    (let s3 = s2\<lparr>stationary_start := start\<rparr>
                                     in case py_get metadata ''last_saved'' (JNum 0) of
                                          Inl e \<Rightarrow> (Inl e, s3)
                                        | Inr last_saved \<Rightarrow>
                                            (case py_num last_saved of
                                               None \<Rightarrow> (Inl TypeError, s3)
                                             | Some t \<Rightarrow> (Inr (), s3))))))))"

text \<open>The \<^verbatim>\<open>except\<close> branch of \<^verbatim>\<open>_load_memory\<close>.\<close>

definition load_failed :: "plugin \<Rightarrow> plugin" where
  "load_failed s =
     s\<lparr>logged := logged s @ [(ERROR, ''Error loading memory'')],
       memory := JObj [], mode := modes ! 0\<rparr>"

definition load_memory :: "plugin \<Rightarrow> file_content \<Rightarrow> plugin" where
  "load_memory s f =
     (case f of
        Absent \<Rightarrow> s
      | Garbage \<Rightarrow> load_failed s
      | Document data \<Rightarrow>
          (case load_document s data of
             (Inl e, s') \<Rightarrow> load_failed s'
           | (Inr u, s') \<Rightarrow> s'))"

definition on_loaded :: "plugin \<Rightarrow> file_content \<Rightarrow> plugin" where
  "on_loaded s f = load_memory s f"

definition on_ready :: "plugin \<Rightarrow> plugin" where
  "on_ready s = s\<lparr>ready := True\<rparr>"

subsection \<open>Eviction\<close>

text \<open>The test of both comprehensions: \<^verbatim>\<open>now - data.get("last_seen", 0) > expiry\<close>.\<close>

definition is_expired :: "real \<Rightarrow> real \<Rightarrow> json \<Rightarrow> py_error + bool" where
  "is_expired now expiry data =
     (case py_get data ''last_seen'' (JNum 0) of
        Inl e \<Rightarrow> Inl e
      | Inr v \<Rightarrow> (case py_num v of None \<Rightarrow> Inl TypeError | Some t \<Rightarrow> Inr (now - t > expiry)))"

fun expired_keys :: "real \<Rightarrow> real \<Rightarrow> (string \<times> json) list \<Rightarrow> py_error + string list" where
  "expired_keys now expiry [] = Inr []"
| "expired_keys now expiry ((k, data) # rest) =
     (case is_expired now expiry data of
        Inl e \<Rightarrow> Inl e
      | Inr b \<Rightarrow>
          (case expired_keys now expiry rest of
             Inl e \<Rightarrow> Inl e
           | Inr ks \<Rightarrow> Inr (if b then k # ks else ks)))"

text \<open>\<^verbatim>\<open>for k in expired: if k in d: del d[k]\<close>.\<close>

definition del_keys :: "string list \<Rightarrow> (string \<times> json) list \<Rightarrow> (string \<times> json) list" where
  "del_keys ks d = fold (\<lambda>k d. if k \<in> set (map fst d) then AList.delete k d else d) ks d"

text \<open>
  The body of the second loop for one AP. Without expired clients the AP is left as it
  is (\<^verbatim>\<open>ap.get("clients", {})\<close> adds no key).
\<close>

definition prune_ap :: "real \<Rightarrow> real \<Rightarrow> json \<Rightarrow> py_error + json" where
  "prune_ap now client_expiry ap =
     (case py_get ap ''clients'' (JObj []) of
        Inl e \<Rightarrow> Inl e
      | Inr (JObj cl) \<Rightarrow>
          (case expired_keys now client_expiry cl of
             Inl e \<Rightarrow> Inl e
           | Inr expired_clients \<Rightarrow>
               if expired_clients = [] then Inr ap
               else (case ap of
                       JObj entry \<Rightarrow>
                         Inr (JObj (AList.update ''clients'' (JObj (del_keys expired_clients cl)) entry))
                     | _ \<Rightarrow> Inl TypeError))
      | Inr _ \<Rightarrow> Inl AttributeError)"

text \<open>The second loop; an exception leaves the APs before it pruned and the rest untouched.\<close>

fun prune_clients ::
  "real \<Rightarrow> real \<Rightarrow> (string \<times> json) list \<Rightarrow> (py_error + unit) \<times> (string \<times> json) list" where
  "prune_clients now client_expiry [] = (Inr (), [])"
| "prune_clients now client_expiry ((ap_mac, ap) # rest) =
     (case prune_ap now client_expiry ap of
        Inl e \<Rightarrow> (Inl e, (ap_mac, ap) # rest)
      | Inr ap' \<Rightarrow>
          (case prune_clients now client_expiry rest of
             (r, rest') \<Rightarrow> (r, (ap_mac, ap') # rest')))"

definition ap_expiry_of :: "string \<Rightarrow> real" where
  "ap_expiry_of m = (if m = ''drive-by'' then DRIVE_BY_AP_EXPIRY_SECONDS else AP_EXPIRY_SECONDS)"

definition client_expiry_of :: "string \<Rightarrow> real" where
  "client_expiry_of m =
     (if m = ''drive-by'' then DRIVE_BY_CLIENT_EXPIRY_SECONDS else CLIENT_EXPIRY_SECONDS)"

text \<open>\<^verbatim>\<open>_cleanup_memory\<close>; it has no \<^verbatim>\<open>try\<close>, so an exception leaves it with the state so far.\<close>

definition cleanup_memory :: "plugin \<Rightarrow> real \<Rightarrow> (py_error + unit) \<times> plugin" where
  "cleanup_memory s now =
     (let s0 = s\<lparr>memory_is_dirty := True\<rparr>;
          ap_expiry = ap_expiry_of (mode s);
          client_expiry = client_expiry_of (mode s)
      in case memory s0 of
           JObj al \<Rightarrow>
             (case expired_keys now ap_expiry al of
                Inl e \<Rightarrow> (Inl e, s0)
              | Inr expired_aps \<Rightarrow>
                  (case prune_clients now client_expiry (del_keys expired_aps al) of
                     (r, al') \<Rightarrow> (r, s0\<lparr>memory := JObj al'\<rparr>)))
         | _ \<Rightarrow> (Inl AttributeError, s0))"

subsection \<open>Ingest\<close>

text \<open>
  An observation as \<^verbatim>\<open>on_unfiltered_ap_list\<close> reads it: every field is taken with
  \<^verbatim>\<open>.get(key, default)\<close>, so an absent key is the field holding its default
  (\<^verbatim>\<open>''\<close>, \<^verbatim>\<open>0\<close>, \<^verbatim>\<open>[]\<close>).
\<close>

record client_obs =
  client_mac :: string

record ap_obs =
  ap_mac :: string
  hostname :: string
  rssi :: int
  channel :: int
  encryption :: string
  clients :: "client_obs list"

definition new_ap_entry :: "ap_obs \<Rightarrow> real \<Rightarrow> json" where
  "new_ap_entry ob now =
     JObj [(''ssid'', JStr (hostname ob)),
           (''first_seen'', JNum now),
           (''last_seen'', JNum now),
           (''rssi'', JNum (of_int (rssi ob))),
           (''channel'', JNum (of_int (channel ob))),
           (''encryption'', JStr (encryption ob)),
           (''clients'', JObj []),
           (''attack_history'', JArr []),
           (''handshakes'', JNum 0),
           (''pmkid_attempts'', JNum 0),
           (''score'', JNum 0)]"

definition new_client_entry :: "real \<Rightarrow> json" where
  "new_client_entry now =
     JObj [(''first_seen'', JNum now), (''last_seen'', JNum now), (''packets'', JNum 0)]"

text \<open>The three assignments of the \<^verbatim>\<open>else\<close> branch, on the dict \<^verbatim>\<open>ap_entry\<close>.\<close>

definition update_ap_entry :: "ap_obs \<Rightarrow> real \<Rightarrow> (string \<times> json) list \<Rightarrow> (string \<times> json) list" where
  "update_ap_entry ob now ap_entry =
     (let e1 = AList.update ''last_seen'' (JNum now) ap_entry;
          e2 = AList.update ''rssi'' (JNum (of_int (rssi ob))) e1
      in if hostname ob \<noteq> [] then AList.update ''ssid'' (JStr (hostname ob)) e2 else e2)"

text \<open>
  Create or update the entry of one AP (\<^verbatim>\<open>mac\<close> is the lower-cased, non-empty key),
  with the count of new APs. A store that is no dict raises at \<^verbatim>\<open>ap_mac not in
  self.memory\<close> or at the subscript that follows it, always a TypeError; so does an
  entry that is no dict at \<^verbatim>\<open>ap_entry["last_seen"] = now\<close>.
\<close>

definition touch_ap :: "real \<Rightarrow> ap_obs \<Rightarrow> string \<Rightarrow> nat \<Rightarrow> plugin \<Rightarrow> (py_error + nat) \<times> plugin" where
  "touch_ap now ob mac new_ap_count s =
     (case memory s of
        JObj al \<Rightarrow>
          (case map_of al mac of
             None \<Rightarrow>
               (Inr (new_ap_count + 1),
                s\<lparr>memory := JObj (AList.update mac (new_ap_entry ob now) al),
                  memory_is_dirty := True\<rparr>)
           | Some (JObj ap_entry) \<Rightarrow>
               (Inr new_ap_count,
                s\<lparr>memory := JObj (AList.update mac (JObj (update_ap_entry ob now ap_entry)) al)\<rparr>)
           | Some _ \<Rightarrow> (Inl TypeError, s))
      | _ \<Rightarrow> (Inl TypeError, s))"

text \<open>
  One client of the AP \<^verbatim>\<open>mac\<close> (\<^verbatim>\<open>cmac\<close> lower-cased and non-empty):
  \<^verbatim>\<open>self.memory[ap_mac]["clients"]\<close> raises KeyError without that key, and a value there
  that is no dict, or a client entry that is no dict, ends in a TypeError.
\<close>

definition touch_client :: "real \<Rightarrow> string \<Rightarrow> string \<Rightarrow> plugin \<Rightarrow> (py_error + unit) \<times> plugin" where
  "touch_client now mac cmac s =
     (case memory s of
        JObj al \<Rightarrow>
          (case map_of al mac of
             None \<Rightarrow> (Inl KeyError, s)
           | Some (JObj ap_entry) \<Rightarrow>
               (case map_of ap_entry ''clients'' of
                  None \<Rightarrow> (Inl KeyError, s)
                | Some (JObj cl) \<Rightarrow>
                    (case map_of cl cmac of
                       None \<Rightarrow>
                         (Inr (),
                          s\<lparr>memory := JObj (AList.update mac (JObj (AList.update ''clients''
                                 (JObj (AList.update cmac (new_client_entry now) cl)) ap_entry)) al),
                            memory_is_dirty := True\<rparr>)
                     | Some (JObj c) \<Rightarrow>
                         (Inr (),
                          s\<lparr>memory := JObj (AList.update mac (JObj (AList.update ''clients''
                                 (JObj (AList.update cmac
                                    (JObj (AList.update ''last_seen'' (JNum now) c)) cl)) ap_entry)) al)\<rparr>)
                     | Some _ \<Rightarrow> (Inl TypeError, s))
                | Some _ \<Rightarrow> (Inl TypeError, s))
           | Some _ \<Rightarrow> (Inl TypeError, s))
      | _ \<Rightarrow> (Inl TypeError, s))"

text \<open>The inner loop; an exception ends it with the state reached.\<close>

fun process_clients ::
  "real \<Rightarrow> string \<Rightarrow> client_obs list \<Rightarrow> plugin \<Rightarrow> (py_error + unit) \<times> plugin" where
  "process_clients now mac [] s = (Inr (), s)"
| "process_clients now mac (c # cs) s =
     (let cmac = lower (client_mac c)
      in if cmac = [] then process_clients now mac cs s
         else (case touch_client now mac cmac s of
                 (Inl e, s') \<Rightarrow> (Inl e, s')
               | (Inr u, s') \<Rightarrow> process_clients now mac cs s'))"

text \<open>The body of the outer loop for one observation.\<close>

definition process_ap ::
  "real \<Rightarrow> ap_obs \<Rightarrow> nat \<Rightarrow> plugin \<Rightarrow> (py_error + nat) \<times> plugin" where
  "process_ap now ob new_ap_count s =
     (let mac = lower (ap_mac ob)
      in if mac = [] then (Inr new_ap_count, s)
         else (case touch_ap now ob mac new_ap_count s of
                 (Inl e, s') \<Rightarrow> (Inl e, s')
               | (Inr n, s') \<Rightarrow>
                   (case process_clients now mac (clients ob) s' of
                      (Inl e, s'') \<Rightarrow> (Inl e, s'')
                    | (Inr u, s'') \<Rightarrow> (Inr n, s''))))"

fun process_aps ::
  "real \<Rightarrow> ap_obs list \<Rightarrow> nat \<Rightarrow> plugin \<Rightarrow> (py_error + nat) \<times> plugin" where
  "process_aps now [] new_ap_count s = (Inr new_ap_count, s)"
| "process_aps now (ob # obs) new_ap_count s =
     (case process_ap now ob new_ap_count s of
        (Inl e, s') \<Rightarrow> (Inl e, s')
      | (Inr n, s') \<Rightarrow> process_aps now obs n s')"

text \<open>
  \<^verbatim>\<open>on_unfiltered_ap_list\<close> with \<^verbatim>\<open>aps = data.get('wifi', {}).get('aps', [])\<close>. The clock
  is read at the start (\<^verbatim>\<open>now\<close>), by \<^verbatim>\<open>_update_activity_history\<close> (\<^verbatim>\<open>now_h\<close>) and, in
  auto mode, by \<^verbatim>\<open>_is_stationary\<close> and \<^verbatim>\<open>_is_moving\<close>. The \<^verbatim>\<open>except\<close> branch logs and
  keeps what was done before the exception.
\<close>

definition on_unfiltered_ap_list ::
  "plugin \<Rightarrow> ap_obs list \<Rightarrow> real \<Rightarrow> real \<Rightarrow> real \<Rightarrow> real \<Rightarrow> plugin" where
  "on_unfiltered_ap_list s aps now now_h now_s now_m =
     (if \<not> ready s then s
      else
        (let s0 = (if now - last_activity_check s > 30 then s\<lparr>last_activity_check := now\<rparr> else s)
         in case process_aps now aps 0 s0 of
              (Inl e, s1) \<Rightarrow> s1\<lparr>logged := logged s1 @ [(ERROR, ''Error processing AP list'')]\<rparr>
            | (Inr new_ap_count, s1) \<Rightarrow>
                (let s2 = update_activity_history s1 now_h new_ap_count
                 in if mode s2 = ''auto'' then
                      (case auto_mode_logic s2 now_s now_m of
                         (Inl e, s3) \<Rightarrow>
                           s3\<lparr>logged := logged s3 @ [(ERROR, ''Error processing AP list'')]\<rparr>
                       | (Inr new_submode, s3) \<Rightarrow>
                           if Some new_submode \<noteq> current_auto_submode s3
                           then s3\<lparr>current_auto_submode := Some new_submode\<rparr> else s3)
                    else s2)))"

subsection \<open>Periodic tick and shutdown\<close>

text \<open>
  \<^verbatim>\<open>on_epoch\<close>: \<^verbatim>\<open>now_c\<close> and \<^verbatim>\<open>now_w\<close> are the clock readings of the sweep and of the
  save, \<^verbatim>\<open>w\<close> is how the write goes if one is attempted, \<^verbatim>\<open>f\<close> the file before the
  call. An exception of the sweep leaves the handler before the save.
\<close>

definition on_epoch ::
  "plugin \<Rightarrow> int \<Rightarrow> real \<Rightarrow> real \<Rightarrow> io \<Rightarrow> file_content
     \<Rightarrow> (py_error + unit) \<times> plugin \<times> file_content" where
  "on_epoch s epoch now_c now_w w f =
     (if \<not> ready s then (Inr (), s, f)
      else
        (case (if epoch mod 10 = 0 then cleanup_memory s now_c else (Inr (), s)) of
           (Inl e, s1) \<Rightarrow> (Inl e, s1, f)
         | (Inr u, s1) \<Rightarrow>
             if memory_is_dirty s1 \<and> epoch mod 5 = 0 then
               (case save_memory s1 now_w w of
                  (s2, f') \<Rightarrow> (Inr (), s2\<lparr>memory_is_dirty := False\<rparr>, f'))
             else (Inr (), s1, f)))"

text \<open>\<^verbatim>\<open>on_unload\<close>, without the shutdown of the thread pool.\<close>

definition on_unload :: "plugin \<Rightarrow> real \<Rightarrow> io \<Rightarrow> file_content \<Rightarrow> plugin \<times> file_content" where
  "on_unload s now_w w f = (if memory_is_dirty s then save_memory s now_w w else (s, f))"

subsection \<open>Reading the store\<close>

text \<open>
  The functions below are not part of the plugin: they read a store the way the
  handlers do, so that the properties can speak of records, fields and time stamps.
\<close>

text \<open>The value under a key of a dict.\<close>

fun jlookup :: "json \<Rightarrow> string \<Rightarrow> json option" where
  "jlookup (JObj al) k = map_of al k"
| "jlookup _ k = None"

text \<open>A time stamp stored under \<^verbatim>\<open>key\<close> as a number.\<close>

definition seen :: "json \<Rightarrow> string \<Rightarrow> real option" where
  "seen d key = (case jlookup d key of Some (JNum t) \<Rightarrow> Some t | _ \<Rightarrow> None)"

text \<open>The last-seen time that the sweep reads off a record: \<^verbatim>\<open>data.get("last_seen", 0)\<close>.\<close>

definition last_seen :: "json \<Rightarrow> real option" where
  "last_seen d = (case py_get d ''last_seen'' (JNum 0) of Inl e \<Rightarrow> None | Inr v \<Rightarrow> py_num v)"

text \<open>The client mapping that the sweep reads off an AP: \<^verbatim>\<open>ap.get("clients", {}).items()\<close>.\<close>

definition clients_of :: "json \<Rightarrow> (string \<times> json) list" where
  "clients_of ap = (case py_get ap ''clients'' (JObj []) of Inr (JObj cl) \<Rightarrow> cl | _ \<Rightarrow> [])"

text \<open>
  The shape of the records that \<^const>\<open>touch_ap\<close> and \<^const>\<open>touch_client\<close> build, with
  every time stamp at most \<^verbatim>\<open>t\<close>: numeric first-seen and last-seen with
  first-seen \<open>\<le>\<close> last-seen, and for an AP a dict of such clients.
\<close>

definition wf_times :: "real \<Rightarrow> json \<Rightarrow> bool" where
  "wf_times t d =
     (case (seen d ''first_seen'', seen d ''last_seen'') of
        (Some f, Some l) \<Rightarrow> f \<le> l \<and> l \<le> t
      | _ \<Rightarrow> False)"

definition wf_clients :: "real \<Rightarrow> json \<Rightarrow> bool" where
  "wf_clients t cs =
     (case cs of
        JObj cl \<Rightarrow> distinct (map fst cl) \<and> list_all (\<lambda>p. wf_times t (snd p)) cl
      | _ \<Rightarrow> False)"

definition wf_ap :: "real \<Rightarrow> json \<Rightarrow> bool" where
  "wf_ap t a =
     (wf_times t a \<and> (case jlookup a ''clients'' of Some cs \<Rightarrow> wf_clients t cs | None \<Rightarrow> False))"

definition wf_memory :: "real \<Rightarrow> json \<Rightarrow> bool" where
  "wf_memory t m =
     (case m of
        JObj al \<Rightarrow> distinct (map fst al) \<and> list_all (\<lambda>p. wf_ap t (snd p)) al
      | _ \<Rightarrow> False)"

text \<open>
  A record and a later state of it: first-seen is the same and last-seen has not
  decreased. \<^verbatim>\<open>dict_grows\<close> lifts a relation on records to dicts: every key of the
  first is a key of the second, with related values.
\<close>

definition seen_le :: "json \<Rightarrow> json \<Rightarrow> bool" where
  "seen_le d d' =
     (seen d' ''first_seen'' = seen d ''first_seen'' \<and>
      (case (seen d ''last_seen'', seen d' ''last_seen'') of
         (Some l, Some l') \<Rightarrow> l \<le> l'
       | _ \<Rightarrow> False))"

definition dict_grows :: "(json \<Rightarrow> json \<Rightarrow> bool) \<Rightarrow> json \<Rightarrow> json \<Rightarrow> bool" where
  "dict_grows R d d' =
     (\<forall>k v. jlookup d k = Some v \<longrightarrow> (\<exists>v'. jlookup d' k = Some v' \<and> R v v'))"

definition ap_le :: "json \<Rightarrow> json \<Rightarrow> bool" where
  "ap_le a a' =
     (seen_le a a' \<and>
      (case (jlookup a ''clients'', jlookup a' ''clients'') of
         (Some cs, Some cs') \<Rightarrow> dict_grows seen_le cs cs'
       | _ \<Rightarrow> False))"

definition mem_grows :: "json \<Rightarrow> json \<Rightarrow> bool" where
  "mem_grows m m' = dict_grows ap_le m m'"

text \<open>A sequence of observation batches, each with the clock readings of its handler call.\<close>

record batch =
  b_aps :: "ap_obs list"
  b_now :: real
  b_now_h :: real
  b_now_s :: real
  b_now_m :: real

definition ingest :: "plugin \<Rightarrow> batch \<Rightarrow> plugin" where
  "ingest s b = on_unfiltered_ap_list s (b_aps b) (b_now b) (b_now_h b) (b_now_s b) (b_now_m b)"

definition ingest_all :: "plugin \<Rightarrow> batch list \<Rightarrow> plugin" where
  "ingest_all s bs = foldl ingest s bs"

text \<open>
  The client dict of an AP after one client observation with key \<^verbatim>\<open>cmac\<close>, and after the
  clients of one AP observation (the keys lower-cased, the empty ones skipped).
\<close>

definition touch_cl :: "real \<Rightarrow> (string \<times> json) list \<Rightarrow> string \<Rightarrow> (string \<times> json) list" where
  "touch_cl now cl cmac =
     (case map_of cl cmac of
        None \<Rightarrow> AList.update cmac (new_client_entry now) cl
      | Some (JObj c) \<Rightarrow> AList.update cmac (JObj (AList.update ''last_seen'' (JNum now) c)) cl
      | Some _ \<Rightarrow> cl)"

definition clients_after :: "real \<Rightarrow> client_obs list \<Rightarrow> (string \<times> json) list \<Rightarrow> (string \<times> json) list" where
  "clients_after now cs cl =
     foldl (touch_cl now) cl (filter (\<lambda>m. m \<noteq> []) (map (\<lambda>c. lower (client_mac c)) cs))"

text \<open>Every value of the dict is a dict.\<close>

definition all_dicts :: "(string \<times> json) list \<Rightarrow> bool" where
  "all_dicts cl = list_all (\<lambda>p. case snd p of JObj c \<Rightarrow> True | _ \<Rightarrow> False) cl"

text \<open>The field \<^verbatim>\<open>f\<close> of the record stored under key \<^verbatim>\<open>k\<close>.\<close>

definition field_of :: "json \<Rightarrow> string \<Rightarrow> string \<Rightarrow> json option" where
  "field_of m k f = (case jlookup m k of Some a \<Rightarrow> jlookup a f | None \<Rightarrow> None)"

text \<open>
  The answers of \<^verbatim>\<open>_is_stationary\<close> over a sequence of evaluations, each with the
  activity history and the clock reading it finds.
\<close>

fun stationary_run :: "plugin \<Rightarrow> ((real \<times> nat) list \<times> real) list \<Rightarrow> (py_error + bool) list" where
  "stationary_run s [] = []"
| "stationary_run s ((hist, now) # rest) =
     (case is_stationary (s\<lparr>activity_history := hist\<rparr>) now of
        (r, s') \<Rightarrow> r # stationary_run s' rest)"

text \<open>Windowed activity below the threshold at an evaluation.\<close>

definition quiet :: "(real \<times> nat) list \<times> real \<Rightarrow> bool" where
  "quiet x = (recent_activity (fst x) (snd x) < ACTIVITY_THRESHOLD)"

subsection \<open>Example inputs\<close>

definition ex_ap :: ap_obs where
  "ex_ap = \<lparr> ap_mac = ''AA:BB'', hostname = ''HomeNet'', rssi = - 40, channel = 6,
             encryption = ''WPA2'', clients = [\<lparr> client_mac = ''C1'' \<rparr>] \<rparr>"

text \<open>Auto mode with the home network in the store and six discoveries in the window.\<close>

definition ex_home :: plugin where
  "ex_home =
     (init {''HomeNet''})\<lparr> ready := True, mode := ''auto'',
        memory := JObj [(''aa:bb'', new_ap_entry ex_ap 100)],
        activity_history := [(100, 6)] \<rparr>"

text \<open>A quiet plugin whose stationary timer started at time 0.\<close>

definition ex_quiet :: plugin where
  "ex_quiet = (init {})\<lparr> ready := True, stationary_start := JNum 0 \<rparr>"

text \<open>A plugin that discovered six APs at time 3900.\<close>

definition ex_busy :: plugin where
  "ex_busy = ex_quiet\<lparr> activity_history := [(3900, 6)] \<rparr>"

definition mk_client :: "real \<Rightarrow> real \<Rightarrow> json" where
  "mk_client f l = JObj [(''first_seen'', JNum f), (''last_seen'', JNum l), (''packets'', JNum 0)]"

definition mk_ap :: "string \<Rightarrow> real \<Rightarrow> real \<Rightarrow> (string \<times> json) list \<Rightarrow> json" where
  "mk_ap name f l cl =
     JObj [(''ssid'', JStr name), (''first_seen'', JNum f), (''last_seen'', JNum l),
           (''rssi'', JNum (- 50)), (''channel'', JNum 1), (''encryption'', JStr ''WPA2''),
           (''clients'', JObj cl), (''attack_history'', JArr []), (''handshakes'', JNum 0),
           (''pmkid_attempts'', JNum 0), (''score'', JNum 0)]"

text \<open>
  A store swept at time 200000: the first AP was seen 1900 s before, its clients 100000 s
  and 1000 s before; the second AP 180000 s before; the third 100 s before.
\<close>

definition ex_store :: json where
  "ex_store =
     JObj [(''aa:01'', mk_ap ''one'' 1000 198100
              [(''c1'', mk_client 1000 100000), (''c2'', mk_client 1000 199000)]),
           (''aa:02'', mk_ap ''two'' 1000 20000 [(''c3'', mk_client 1000 199990)]),
           (''aa:03'', mk_ap ''three'' 1000 199900 [])]"

text \<open>Auto mode whose current sub-mode is \<^verbatim>\<open>drive-by\<close>.\<close>

definition ex_auto :: plugin where
  "ex_auto =
     (init {})\<lparr> ready := True, mode := ''auto'', current_auto_submode := Some ''drive-by'',
        memory := ex_store, memory_is_dirty := False \<rparr>"

text \<open>A ready plugin with unsaved changes, and documents as a file may hold them.\<close>

definition ex_dirty :: plugin where
  "ex_dirty = (init {})\<lparr> ready := True, mode := ''recon'', memory := ex_store \<rparr>"

definition ex_doc_bad_mode :: json where
  "ex_doc_bad_mode =
     JObj [(''plugin_metadata'', JObj [(''current_mode'', JStr ''stealth''), (''last_saved'', JNum 5)]),
           (''ap_data'', ex_store)]"

definition ex_doc_bad_stamp :: json where
  "ex_doc_bad_stamp =
     JObj [(''plugin_metadata'', JObj [(''current_mode'', JStr ''loose''), (''last_saved'', JNull)]),
           (''ap_data'', ex_store)]"

text \<open>A fresh ready plugin, a second sighting of the example AP without a name, and two batches.\<close>

definition ex_fresh :: plugin where
  "ex_fresh = (init {})\<lparr> ready := True \<rparr>"

definition ex_blank :: ap_obs where
  "ex_blank = ex_ap\<lparr> hostname := [], rssi := - 70 \<rparr>"

definition ex_fields :: "(string \<times> json) list" where
  "ex_fields =
     [(''ssid'', JStr ''HomeNet''), (''first_seen'', JNum 100), (''last_seen'', JNum 100),
      (''rssi'', JNum (- 40)), (''channel'', JNum 6), (''encryption'', JStr ''WPA2''),
      (''clients'', JObj []), (''attack_history'', JArr []), (''handshakes'', JNum 0),
      (''pmkid_attempts'', JNum 0), (''score'', JNum 0)]"

definition ex_batches :: "batch list" where
  "ex_batches =
     [\<lparr> b_aps = [ex_ap], b_now = 10, b_now_h = 10, b_now_s = 10, b_now_m = 10 \<rparr>,
      \<lparr> b_aps = [ex_blank], b_now = 20, b_now_h = 20, b_now_s = 20, b_now_m = 20 \<rparr>]"

text \<open>A ready plugin that has seen the example AP at time 100, and an AP it has not seen.\<close>

definition ex_seen :: plugin where
  "ex_seen = (init {})\<lparr> ready := True, memory := JObj [(''aa:bb'', new_ap_entry ex_ap 100)] \<rparr>"

definition ex_new :: ap_obs where
  "ex_new = \<lparr> ap_mac = ''CC:DD'', hostname = ''Cafe'', rssi = - 60, channel = 11,
              encryption = ''OPEN'', clients = [] \<rparr>"

section \<open>Properties\<close>

subsection \<open>Motion classifier and auto mode\<close>

lemma is_stationary_keeps:
  "activity_history (snd (is_stationary s now)) = activity_history s"
  "memory (snd (is_stationary s now)) = memory s"
  by (simp_all add: is_stationary_def Let_def split: option.splits)

text \<open>
  C5. When the home test and the stationary test return, the sub-mode chosen by
  \<^verbatim>\<open>_auto_mode_logic\<close> is \<^verbatim>\<open>recon\<close> if a home network is visible or the device is
  stationary, whether or not it is moving; otherwise \<^verbatim>\<open>drive-by\<close> if it is moving;
  otherwise \<^verbatim>\<open>loose\<close> with fewer than 10 APs in the store and \<^verbatim>\<open>strict\<close> with 10 or more.
\<close>

theorem auto_mode_priority:
  assumes "home_ssid_visible s = Inr home_visible"
    and "is_stationary s now_s = (Inr stationary, s1)"
    and "py_len (memory s) = Inr n"
  shows "auto_mode_logic s now_s now_m =
           (Inr (if home_visible \<or> stationary then ''recon''
                 else if is_moving s now_m then ''drive-by''
                 else if n < 10 then ''loose'' else ''strict''), s1)"
proof -
  have "activity_history s1 = activity_history s" and "memory s1 = memory s"
    using is_stationary_keeps [of s now_s] assms(2) by simp_all
  then show ?thesis
    using assms by (simp add: auto_mode_logic_def is_moving_def)
qed

theorem auto_mode_priority_witness:
  "home_ssid_visible ex_home = Inr True \<and> is_stationary ex_home 200 = (Inr False, ex_home)
   \<and> py_len (memory ex_home) = Inr 1 \<and> is_moving ex_home 200
   \<and> auto_mode_logic ex_home 200 200 = (Inr ''recon'', ex_home)"
proof -
  have h: "home_ssid_visible ex_home = Inr True"
    by (simp add: ex_home_def init_def home_ssid_visible_def new_ap_entry_def ex_ap_def)
  have st: "is_stationary ex_home 200 = (Inr False, ex_home)"
    by (simp add: ex_home_def init_def is_stationary_def recent_activity_def
        ACTIVITY_THRESHOLD_def ACTIVITY_WINDOW_SECONDS_def)
  have n: "py_len (memory ex_home) = Inr 1"
    by (simp add: ex_home_def)
  have m: "is_moving ex_home 200"
    by (simp add: ex_home_def is_moving_def recent_activity_def
        ACTIVITY_THRESHOLD_def ACTIVITY_WINDOW_SECONDS_def)
  from auto_mode_priority [OF h st n, of 200] h st n m show ?thesis by simp
qed

lemma is_stationary_cases:
  "stationary_start s = JNull \<Longrightarrow> quiet (hist, now) \<Longrightarrow>
     fst (is_stationary (s\<lparr>activity_history := hist\<rparr>) now) = Inr False
     \<and> stationary_start (snd (is_stationary (s\<lparr>activity_history := hist\<rparr>) now)) = JNum now"
  "\<not> quiet (hist, now) \<Longrightarrow>
     fst (is_stationary (s\<lparr>activity_history := hist\<rparr>) now) = Inr False
     \<and> stationary_start (snd (is_stationary (s\<lparr>activity_history := hist\<rparr>) now)) = JNull"
  "stationary_start s = JNum t0 \<Longrightarrow> quiet (hist, now) \<Longrightarrow>
     fst (is_stationary (s\<lparr>activity_history := hist\<rparr>) now) = Inr (now - t0 \<ge> 3600)
     \<and> stationary_start (snd (is_stationary (s\<lparr>activity_history := hist\<rparr>) now)) = JNum t0"
  by (simp_all add: is_stationary_def quiet_def STATIONARY_SECONDS_def)

lemma stationary_run_true:
  "k < length xs \<Longrightarrow> stationary_run s xs ! k = Inr True \<Longrightarrow>
     (stationary_start s = JNull \<longrightarrow>
        (\<exists>j<k. snd (xs ! k) - snd (xs ! j) \<ge> 3600 \<and> (\<forall>i. j \<le> i \<and> i \<le> k \<longrightarrow> quiet (xs ! i))))
   \<and> (\<forall>t0. stationary_start s = JNum t0 \<longrightarrow>
        (snd (xs ! k) - t0 \<ge> 3600 \<and> (\<forall>i \<le> k. quiet (xs ! i)))
        \<or> (\<exists>j<k. snd (xs ! k) - snd (xs ! j) \<ge> 3600
               \<and> (\<forall>i. j \<le> i \<and> i \<le> k \<longrightarrow> quiet (xs ! i))))"
proof (induction xs arbitrary: s k)
  case Nil
  then show ?case by simp
next
  case (Cons x xs)
  obtain hist now where x: "x = (hist, now)" by (cases x)
  let ?s0 = "s\<lparr>activity_history := hist\<rparr>"
  obtain r s' where st: "is_stationary ?s0 now = (r, s')" by (cases "is_stationary ?s0 now")
  note c = is_stationary_cases [where s = s and hist = hist and now = now, unfolded st fst_conv snd_conv]
  have shift: "\<exists>j<Suc k'. snd ((x # xs) ! Suc k') - snd ((x # xs) ! j) \<ge> 3600
                 \<and> (\<forall>i. j \<le> i \<and> i \<le> Suc k' \<longrightarrow> quiet ((x # xs) ! i))"
    if "\<exists>j<k'. snd (xs ! k') - snd (xs ! j) \<ge> 3600 \<and> (\<forall>i. j \<le> i \<and> i \<le> k' \<longrightarrow> quiet (xs ! i))"
    for k'
  proof -
    from that obtain j where j: "j < k'" "snd (xs ! k') - snd (xs ! j) \<ge> 3600"
      "\<forall>i. j \<le> i \<and> i \<le> k' \<longrightarrow> quiet (xs ! i)" by blast
    have "\<forall>i. Suc j \<le> i \<and> i \<le> Suc k' \<longrightarrow> quiet ((x # xs) ! i)"
    proof (intro allI impI)
      fix i assume "Suc j \<le> i \<and> i \<le> Suc k'"
      then obtain i' where "i = Suc i'" "j \<le> i'" "i' \<le> k'" by (cases i) auto
      with j(3) show "quiet ((x # xs) ! i)" by simp
    qed
    with j(1,2) show ?thesis by (intro exI [of _ "Suc j"]) simp
  qed
  show ?case
  proof (cases k)
    case 0
    with Cons.prems st x have r: "r = Inr True" by simp
    show ?thesis
    proof (cases "quiet (hist, now)")
      case True
      with c r 0 x show ?thesis by auto
    next
      case False
      with c(2) r show ?thesis by simp
    qed
  next
    case (Suc k')
    with Cons.prems st x have k': "k' < length xs" and tr: "stationary_run s' xs ! k' = Inr True"
      by simp_all
    note ih = Cons.IH [OF k' tr]
    show ?thesis
    proof (cases "quiet (hist, now)")
      case False
      with c(2) have "stationary_start s' = JNull" by simp
      with ih shift [of k'] Suc show ?thesis by simp
    next
      case q: True
      show ?thesis
      proof (intro conjI impI allI)
        assume n: "stationary_start s = JNull"
        with c(1) q have "stationary_start s' = JNum now" by simp
        with ih have "(snd (xs ! k') - now \<ge> 3600 \<and> (\<forall>i \<le> k'. quiet (xs ! i)))
            \<or> (\<exists>j<k'. snd (xs ! k') - snd (xs ! j) \<ge> 3600
                   \<and> (\<forall>i. j \<le> i \<and> i \<le> k' \<longrightarrow> quiet (xs ! i)))"
          by simp
        then show "\<exists>j<k. snd ((x # xs) ! k) - snd ((x # xs) ! j) \<ge> 3600
                     \<and> (\<forall>i. j \<le> i \<and> i \<le> k \<longrightarrow> quiet ((x # xs) ! i))"
        proof
          assume a: "snd (xs ! k') - now \<ge> 3600 \<and> (\<forall>i \<le> k'. quiet (xs ! i))"
          have "\<forall>i. 0 \<le> i \<and> i \<le> Suc k' \<longrightarrow> quiet ((x # xs) ! i)"
          proof (intro allI impI)
            fix i assume "0 \<le> i \<and> i \<le> Suc k'"
            with a q x show "quiet ((x # xs) ! i)" by (cases i) auto
          qed
          with a x Suc show ?thesis by (intro exI [of _ 0]) simp
        next
          assume "\<exists>j<k'. snd (xs ! k') - snd (xs ! j) \<ge> 3600
                   \<and> (\<forall>i. j \<le> i \<and> i \<le> k' \<longrightarrow> quiet (xs ! i))"
          from shift [OF this] Suc show ?thesis by simp
        qed
      next
        fix t0 assume t: "stationary_start s = JNum t0"
        with c(3) q have "stationary_start s' = JNum t0" by simp
        with ih have "(snd (xs ! k') - t0 \<ge> 3600 \<and> (\<forall>i \<le> k'. quiet (xs ! i)))
            \<or> (\<exists>j<k'. snd (xs ! k') - snd (xs ! j) \<ge> 3600
                   \<and> (\<forall>i. j \<le> i \<and> i \<le> k' \<longrightarrow> quiet (xs ! i)))"
          by simp
        then show "(snd ((x # xs) ! k) - t0 \<ge> 3600 \<and> (\<forall>i \<le> k. quiet ((x # xs) ! i)))
            \<or> (\<exists>j<k. snd ((x # xs) ! k) - snd ((x # xs) ! j) \<ge> 3600
                   \<and> (\<forall>i. j \<le> i \<and> i \<le> k \<longrightarrow> quiet ((x # xs) ! i)))"
        proof
          assume a: "snd (xs ! k') - t0 \<ge> 3600 \<and> (\<forall>i \<le> k'. quiet (xs ! i))"
          have "\<forall>i \<le> Suc k'. quiet ((x # xs) ! i)"
          proof (intro allI impI)
            fix i assume "i \<le> Suc k'"
            with a q x show "quiet ((x # xs) ! i)" by (cases i) auto
          qed
          with a Suc show ?thesis by simp
        next
          assume "\<exists>j<k'. snd (xs ! k') - snd (xs ! j) \<ge> 3600
                   \<and> (\<forall>i. j \<le> i \<and> i \<le> k' \<longrightarrow> quiet (xs ! i))"
          from shift [OF this] Suc show ?thesis by simp
        qed
      qed
    qed
  qed
qed

text \<open>
  C6. One evaluation of \<^verbatim>\<open>_is_stationary\<close> at time \<^verbatim>\<open>now\<close>, from any state. With
  windowed activity below the threshold and no timer, the timer is set to \<^verbatim>\<open>now\<close> and
  the answer is False; with a timer \<^verbatim>\<open>t0\<close> already set it is kept and the answer is
  \<^verbatim>\<open>now - t0 \<ge> 3600\<close>. With activity at the threshold or above the answer is False
  and the timer is cleared. So the answer True needs a timer set before the call with
  at least 3600 seconds elapsed, and an unset timer always gives False. Over a
  sequence of evaluations that starts without a timer, an answer True at one of them
  means that an earlier one lies at least 3600 seconds back and that every evaluation
  from that one on found activity below the threshold.
\<close>

theorem stationary_hysteresis:
  "(recent_activity (activity_history s) now < ACTIVITY_THRESHOLD \<and> stationary_start s = JNull
      \<longrightarrow> is_stationary s now = (Inr False, s\<lparr>stationary_start := JNum now\<rparr>))
   \<and> (recent_activity (activity_history s) now < ACTIVITY_THRESHOLD \<and> stationary_start s = JNum t0
      \<longrightarrow> is_stationary s now = (Inr (now - t0 \<ge> 3600), s))
   \<and> (recent_activity (activity_history s) now \<ge> ACTIVITY_THRESHOLD
      \<longrightarrow> fst (is_stationary s now) = Inr False
          \<and> stationary_start (snd (is_stationary s now)) = JNull)
   \<and> (fst (is_stationary s now) = Inr True
      \<longrightarrow> stationary_start s \<noteq> JNull
          \<and> (\<exists>start. py_num (stationary_start s) = Some start \<and> now - start \<ge> 3600))
   \<and> (stationary_start s = JNull \<longrightarrow> fst (is_stationary s now) = Inr False)
   \<and> (stationary_start s = JNull \<and> k < length xs \<and> stationary_run s xs ! k = Inr True
      \<longrightarrow> (\<exists>j<k. snd (xs ! k) - snd (xs ! j) \<ge> 3600
                \<and> (\<forall>i. j \<le> i \<and> i \<le> k \<longrightarrow> quiet (xs ! i))))"
proof -
  have "stationary_start s = JNull \<and> k < length xs \<and> stationary_run s xs ! k = Inr True
      \<longrightarrow> (\<exists>j<k. snd (xs ! k) - snd (xs ! j) \<ge> 3600
                \<and> (\<forall>i. j \<le> i \<and> i \<le> k \<longrightarrow> quiet (xs ! i)))"
    using stationary_run_true [of k xs s] by blast
  then show ?thesis
    by (auto simp: is_stationary_def Let_def STATIONARY_SECONDS_def
        split: if_splits option.splits)
qed

theorem stationary_hysteresis_witness:
  "is_stationary ex_quiet 3599 = (Inr False, ex_quiet)
   \<and> is_stationary ex_quiet 3600 = (Inr True, ex_quiet)
   \<and> is_stationary ex_busy 4000 = (Inr False, ex_busy\<lparr>stationary_start := JNull\<rparr>)
   \<and> is_stationary (ex_busy\<lparr>stationary_start := JNull\<rparr>) 4300
        = (Inr False, ex_busy\<lparr>stationary_start := JNum 4300\<rparr>)
   \<and> is_stationary (ex_busy\<lparr>stationary_start := JNum 4300\<rparr>) 7899
        = (Inr False, ex_busy\<lparr>stationary_start := JNum 4300\<rparr>)
   \<and> is_stationary (ex_busy\<lparr>stationary_start := JNum 4300\<rparr>) 7900
        = (Inr True, ex_busy\<lparr>stationary_start := JNum 4300\<rparr>)
   \<and> stationary_run (ex_busy\<lparr>stationary_start := JNull\<rparr>) [([], 4300), ([], 7900)]
        = [Inr False, Inr True]
   \<and> (\<exists>j<1. snd ([([], 4300), ([], 7900)] ! 1) - snd ([([], 4300), ([], 7900 :: real)] ! j)
               \<ge> (3600 :: real)
          \<and> (\<forall>i. j \<le> i \<and> i \<le> 1 \<longrightarrow> quiet ([([], 4300), ([], 7900)] ! i)))"
proof -
  have q: "recent_activity (activity_history ex_quiet) t < ACTIVITY_THRESHOLD" for t
    by (simp add: ex_quiet_def init_def recent_activity_def ACTIVITY_THRESHOLD_def)
  have b1: "recent_activity (activity_history ex_busy) 4000 \<ge> ACTIVITY_THRESHOLD"
    by (simp add: ex_busy_def recent_activity_def ACTIVITY_THRESHOLD_def
        ACTIVITY_WINDOW_SECONDS_def)
  have b2: "recent_activity (activity_history (ex_busy\<lparr>stationary_start := x\<rparr>)) t
              < ACTIVITY_THRESHOLD" if "t > 4200" for t x
    using that by (simp add: ex_busy_def recent_activity_def ACTIVITY_THRESHOLD_def
        ACTIVITY_WINDOW_SECONDS_def)
  have s0: "stationary_start ex_quiet = JNum 0"
    by (simp add: ex_quiet_def)
  have c: "snd (is_stationary ex_busy 4000) = ex_busy\<lparr>stationary_start := JNull\<rparr>"
    by (simp add: is_stationary_def Let_def ex_busy_def ex_quiet_def recent_activity_def
        ACTIVITY_THRESHOLD_def ACTIVITY_WINDOW_SECONDS_def)
  have r: "stationary_run (ex_busy\<lparr>stationary_start := JNull\<rparr>) [([], 4300), ([], 7900)]
        = [Inr False, Inr True]"
    by (simp add: is_stationary_def Let_def recent_activity_def ACTIVITY_THRESHOLD_def
        STATIONARY_SECONDS_def)
  have tr: "\<exists>j<1. snd ([([], 4300), ([], 7900)] ! 1) - snd ([([], 4300), ([], 7900 :: real)] ! j)
               \<ge> (3600 :: real)
          \<and> (\<forall>i. j \<le> i \<and> i \<le> 1 \<longrightarrow> quiet ([([], 4300), ([], 7900)] ! i))"
    using stationary_hysteresis [of "ex_busy\<lparr>stationary_start := JNull\<rparr>" 4300 0 1
        "[([], 4300), ([], 7900)]"] r
    by simp
  have ev: "is_stationary ex_quiet 3599 = (Inr False, ex_quiet)
   \<and> is_stationary ex_quiet 3600 = (Inr True, ex_quiet)
   \<and> is_stationary ex_busy 4000 = (Inr False, ex_busy\<lparr>stationary_start := JNull\<rparr>)
   \<and> is_stationary (ex_busy\<lparr>stationary_start := JNull\<rparr>) 4300
        = (Inr False, ex_busy\<lparr>stationary_start := JNum 4300\<rparr>)
   \<and> is_stationary (ex_busy\<lparr>stationary_start := JNum 4300\<rparr>) 7899
        = (Inr False, ex_busy\<lparr>stationary_start := JNum 4300\<rparr>)
   \<and> is_stationary (ex_busy\<lparr>stationary_start := JNum 4300\<rparr>) 7900
        = (Inr True, ex_busy\<lparr>stationary_start := JNum 4300\<rparr>)"
    using stationary_hysteresis [of ex_quiet 3599 0 0 "[]"]
      stationary_hysteresis [of ex_quiet 3600 0 0 "[]"]
      stationary_hysteresis [of ex_busy 4000 0 0 "[]"]
      stationary_hysteresis [of "ex_busy\<lparr>stationary_start := JNull\<rparr>" 4300 0 0 "[]"]
      stationary_hysteresis [of "ex_busy\<lparr>stationary_start := JNum 4300\<rparr>" 7899 4300 0 "[]"]
      stationary_hysteresis [of "ex_busy\<lparr>stationary_start := JNum 4300\<rparr>" 7900 4300 0 "[]"]
      q [of 3599] q [of 3600] b1 b2 [of 4300 JNull] b2 [of 7899 "JNum 4300"]
      b2 [of 7900 "JNum 4300"] s0 c
    by (simp add: prod_eq_iff)
  from ev r tr show ?thesis by blast
qed

text \<open>
  C10. At one evaluation time and for one activity history, \<^verbatim>\<open>_is_stationary\<close>
  answering True excludes \<^verbatim>\<open>_is_moving\<close>, whatever the stationary timer holds: the
  first needs the windowed sum below the threshold, the second at or above it.
\<close>

theorem not_moving_and_stationary:
  "fst (is_stationary s now) = Inr True \<Longrightarrow>
     \<not> is_moving s now \<and> \<not> is_moving (snd (is_stationary s now)) now"
  by (auto simp: is_stationary_def is_moving_def Let_def split: if_splits option.splits)

theorem not_moving_and_stationary_witness:
  "fst (is_stationary ex_quiet 3600) = Inr True \<and> \<not> is_moving ex_quiet 3600"
proof -
  have h: "fst (is_stationary ex_quiet 3600) = Inr True"
    by (simp add: is_stationary_def Let_def ex_quiet_def init_def recent_activity_def
        ACTIVITY_THRESHOLD_def STATIONARY_SECONDS_def)
  from not_moving_and_stationary [OF h] h show ?thesis by simp
qed

subsection \<open>Eviction\<close>

lemma is_expired_iff:
  "is_expired now e d = Inr b \<longleftrightarrow> (\<exists>t. last_seen d = Some t \<and> b = (now - t > e))"
  by (auto simp: is_expired_def last_seen_def split: sum.splits option.splits)

lemma del_keys_filter: "del_keys ks d = filter (\<lambda>p. fst p \<notin> set ks) d"
proof (induction ks arbitrary: d)
  case Nil
  then show ?case by (simp add: del_keys_def)
next
  case (Cons k ks)
  have "del_keys (k # ks) d = del_keys ks (AList.delete k d)"
    by (simp add: del_keys_def AList.delete_id)
  also have "\<dots> = filter (\<lambda>p. fst p \<notin> set ks) (AList.delete k d)"
    by (rule Cons.IH)
  also have "\<dots> = filter (\<lambda>p. fst p \<notin> set (k # ks)) d"
    by (auto simp: AList.delete_eq split_def intro!: filter_cong)
  finally show ?case .
qed

lemma expired_keys_Inr:
  "expired_keys now e al = Inr ks \<Longrightarrow>
     ks = map fst (filter (\<lambda>p. is_expired now e (snd p) = Inr True) al) \<and>
     (\<forall>p \<in> set al. \<exists>b. is_expired now e (snd p) = Inr b)"
proof (induction al arbitrary: ks)
  case Nil
  then show ?case by simp
next
  case (Cons p al)
  obtain k d where p: "p = (k, d)" by (cases p)
  from Cons.prems p obtain b ks' where
    b: "is_expired now e d = Inr b" and ks': "expired_keys now e al = Inr ks'"
    and ks: "ks = (if b then k # ks' else ks')"
    by (auto split: sum.splits)
  from Cons.IH [OF ks'] b ks p show ?case by auto
qed

lemma expired_keys_total:
  "(\<forall>p \<in> set al. \<exists>b. is_expired now e (snd p) = Inr b) \<Longrightarrow>
     \<exists>ks. expired_keys now e al = Inr ks"
  by (induction al) (auto split: sum.splits)

lemma survivors_not_expired:
  assumes "expired_keys now e al = Inr ks" and "p \<in> set (del_keys ks al)"
  shows "is_expired now e (snd p) = Inr False"
proof -
  from assms(2) have mem: "p \<in> set al" and notin: "fst p \<notin> set ks"
    by (auto simp: del_keys_filter)
  from expired_keys_Inr [OF assms(1)] mem obtain b where b: "is_expired now e (snd p) = Inr b"
    by blast
  from expired_keys_Inr [OF assms(1)] mem notin have "is_expired now e (snd p) \<noteq> Inr True"
    by force
  with b show ?thesis by auto
qed

text \<open>With each key held once, the deleted entries are exactly the expired ones.\<close>

lemma del_expired_distinct:
  assumes "distinct (map fst al)" and "expired_keys now e al = Inr ks"
  shows "del_keys ks al = filter (\<lambda>p. \<exists>t. last_seen (snd p) = Some t \<and> now - t \<le> e) al"
proof -
  have "fst p \<notin> set ks \<longleftrightarrow> (\<exists>t. last_seen (snd p) = Some t \<and> now - t \<le> e)"
    if p: "p \<in> set al" for p
  proof -
    from expired_keys_Inr [OF assms(2)] p obtain b where b: "is_expired now e (snd p) = Inr b"
      by blast
    have "fst p \<in> set ks \<longleftrightarrow> is_expired now e (snd p) = Inr True"
    proof
      assume "fst p \<in> set ks"
      with expired_keys_Inr [OF assms(2)] obtain q where
        q: "q \<in> set al" "is_expired now e (snd q) = Inr True" "fst q = fst p"
        by auto
      from assms(1) q(1,3) p have "q = p"
        by (metis eq_key_imp_eq_value prod.collapse)
      with q(2) show "is_expired now e (snd p) = Inr True" by simp
    next
      assume "is_expired now e (snd p) = Inr True"
      with expired_keys_Inr [OF assms(2)] p show "fst p \<in> set ks" by force
    qed
    with b show ?thesis
      by (cases b) (auto simp: is_expired_iff)
  qed
  then show ?thesis
    unfolding del_keys_filter by (intro filter_cong) auto
qed

lemma last_seen_update_clients:
  "last_seen (JObj (AList.update ''clients'' v entry)) = last_seen (JObj entry)"
  by (simp add: last_seen_def update_conv')

lemma prune_ap_last_seen:
  "prune_ap now ce ap = Inr ap' \<Longrightarrow> last_seen ap' = last_seen ap"
  by (auto simp: prune_ap_def last_seen_update_clients split: sum.splits json.splits if_splits)

text \<open>What \<^const>\<open>prune_ap\<close> leaves of the client mapping.\<close>

lemma prune_ap_clients_of:
  assumes "prune_ap now ce ap = Inr ap'"
  shows "\<exists>ks. expired_keys now ce (clients_of ap) = Inr ks
              \<and> clients_of ap' = del_keys ks (clients_of ap)"
proof -
  from assms obtain cl ks where
    get: "py_get ap ''clients'' (JObj []) = Inr (JObj cl)"
    and ks: "expired_keys now ce cl = Inr ks"
    by (auto simp: prune_ap_def split: sum.splits json.splits if_splits)
  have cl: "clients_of ap = cl"
    using get by (simp add: clients_of_def)
  show ?thesis
  proof (cases "ks = []")
    case True
    with assms get ks have "ap' = ap" by (simp add: prune_ap_def)
    with cl ks True show ?thesis by (simp add: del_keys_def)
  next
    case False
    with assms get ks obtain entry where
      "ap' = JObj (AList.update ''clients'' (JObj (del_keys ks cl)) entry)"
      by (auto simp: prune_ap_def split: json.splits)
    then have "clients_of ap' = del_keys ks cl"
      by (simp add: clients_of_def update_conv')
    with cl ks show ?thesis by simp
  qed
qed

lemma prune_clients_Inr:
  "prune_clients now ce al = (Inr (), al') \<Longrightarrow>
     list_all2 (\<lambda>p p'. fst p' = fst p \<and> prune_ap now ce (snd p) = Inr (snd p')) al al'"
proof (induction al arbitrary: al')
  case Nil
  then show ?case by simp
next
  case (Cons p al)
  obtain k ap where p: "p = (k, ap)" by (cases p)
  from Cons.prems p obtain ap' rest' where
    "prune_ap now ce ap = Inr ap'" "prune_clients now ce al = (Inr (), rest')"
    "al' = (k, ap') # rest'"
    by (auto split: sum.splits prod.splits)
  with Cons.IH [of rest'] p show ?case by simp
qed

lemma list_all2_rightD:
  "list_all2 R xs ys \<Longrightarrow> y \<in> set ys \<Longrightarrow> \<exists>x \<in> set xs. R x y"
  by (induction rule: list_all2_induct) auto

text \<open>A sweep that returns has deleted the expired APs and pruned the rest.\<close>

lemma cleanup_memory_Inr:
  assumes "cleanup_memory s now = (Inr (), s')"
  shows "\<exists>al ks al'. memory s = JObj al
           \<and> expired_keys now (ap_expiry_of (mode s)) al = Inr ks
           \<and> prune_clients now (client_expiry_of (mode s)) (del_keys ks al) = (Inr (), al')
           \<and> s' = s\<lparr>memory_is_dirty := True, memory := JObj al'\<rparr>"
  using assms
  by (auto simp: cleanup_memory_def Let_def split: json.splits sum.splits prod.splits)

text \<open>On well-formed records neither comprehension raises, so the sweep returns.\<close>

lemma wf_times_expired: "wf_times t d \<Longrightarrow> \<exists>b. is_expired now e d = Inr b"
  by (cases d) (auto simp: wf_times_def seen_def is_expired_def split: option.splits json.splits)

lemma wf_clients_expired_keys:
  assumes "wf_clients t (JObj cl)"
  shows "\<exists>ks. expired_keys now e cl = Inr ks"
proof (rule expired_keys_total)
  from assms show "\<forall>p \<in> set cl. \<exists>b. is_expired now e (snd p) = Inr b"
    by (auto simp: wf_clients_def list_all_iff intro: wf_times_expired)
qed

lemma wf_prune_ap:
  assumes "wf_ap t a"
  shows "\<exists>a'. prune_ap now ce a = Inr a'"
proof -
  from assms have "wf_times t a" by (simp add: wf_ap_def)
  then obtain entry where a: "a = JObj entry"
    by (cases a) (simp_all add: wf_times_def seen_def)
  from assms a obtain cs where cs: "map_of entry ''clients'' = Some cs" "wf_clients t cs"
    by (auto simp: wf_ap_def split: option.splits)
  then obtain cl where cl: "cs = JObj cl"
    by (cases cs) (simp_all add: wf_clients_def)
  from wf_clients_expired_keys [of t cl now ce] cs cl obtain ks where
    "expired_keys now ce cl = Inr ks" by auto
  with a cs cl show ?thesis by (simp add: prune_ap_def)
qed

lemma prune_clients_total:
  "(\<forall>p \<in> set al. \<exists>a'. prune_ap now ce (snd p) = Inr a') \<Longrightarrow>
     fst (prune_clients now ce al) = Inr ()"
  by (induction al) (auto split: sum.splits prod.splits)

lemma cleanup_memory_total:
  assumes "wf_memory t (memory s)"
  shows "fst (cleanup_memory s now) = Inr ()"
proof -
  from assms obtain al where m: "memory s = JObj al"
    and w: "\<forall>p \<in> set al. wf_ap t (snd p)"
    by (cases "memory s") (auto simp: wf_memory_def list_all_iff)
  have "\<forall>p \<in> set al. \<exists>b. is_expired now (ap_expiry_of (mode s)) (snd p) = Inr b"
    using w by (auto simp: wf_ap_def intro: wf_times_expired)
  from expired_keys_total [OF this] obtain ks where
    ks: "expired_keys now (ap_expiry_of (mode s)) al = Inr ks" by blast
  have "\<forall>p \<in> set (del_keys ks al).
          \<exists>a'. prune_ap now (client_expiry_of (mode s)) (snd p) = Inr a'"
  proof
    fix p assume "p \<in> set (del_keys ks al)"
    then have "p \<in> set al" by (simp add: del_keys_filter)
    with w have "wf_ap t (snd p)" by blast
    then show "\<exists>a'. prune_ap now (client_expiry_of (mode s)) (snd p) = Inr a'"
      by (rule wf_prune_ap)
  qed
  from prune_clients_total [OF this] m ks show ?thesis
    by (auto simp: cleanup_memory_def split: prod.splits)
qed

text \<open>What a sweep that returns leaves in the store.\<close>

lemma sweep_result:
  assumes "cleanup_memory s now = (Inr (), s')"
  shows "\<exists>al al'. memory s = JObj al \<and> memory s' = JObj al' \<and> mode s' = mode s
     \<and> (\<forall>p' \<in> set al'.
           (\<exists>t. last_seen (snd p') = Some t \<and> \<not> now - t > ap_expiry_of (mode s'))
         \<and> (\<forall>c \<in> set (clients_of (snd p')).
               \<exists>t. last_seen (snd c) = Some t \<and> \<not> now - t > client_expiry_of (mode s'))
         \<and> (\<exists>p \<in> set al. fst p = fst p'
               \<and> (\<exists>t. last_seen (snd p) = Some t \<and> \<not> now - t > ap_expiry_of (mode s))
               \<and> set (clients_of (snd p')) \<subseteq> set (clients_of (snd p))))
     \<and> (\<forall>p \<in> set al.
           (\<exists>t. last_seen (snd p) = Some t \<and> now - t > ap_expiry_of (mode s))
           \<longrightarrow> fst p \<notin> fst ` set al')"
proof -
  from cleanup_memory_Inr [OF assms] obtain al ks al' where
    m: "memory s = JObj al"
    and ks: "expired_keys now (ap_expiry_of (mode s)) al = Inr ks"
    and pr: "prune_clients now (client_expiry_of (mode s)) (del_keys ks al) = (Inr (), al')"
    and s': "s' = s\<lparr>memory_is_dirty := True, memory := JObj al'\<rparr>"
    by blast
  let ?al1 = "del_keys ks al"
  note l2 = prune_clients_Inr [OF pr]
  have kept: "\<exists>p \<in> set ?al1. fst p' = fst p
                \<and> prune_ap now (client_expiry_of (mode s)) (snd p) = Inr (snd p')"
    if "p' \<in> set al'" for p'
    using list_all2_rightD [OF l2 that] by auto
  have keys: "map fst al' = map fst ?al1"
    using l2 by (induction rule: list_all2_induct) auto
  have a: "(\<exists>t. last_seen (snd p') = Some t \<and> \<not> now - t > ap_expiry_of (mode s))
         \<and> (\<forall>c \<in> set (clients_of (snd p')).
               \<exists>t. last_seen (snd c) = Some t \<and> \<not> now - t > client_expiry_of (mode s))
         \<and> (\<exists>p \<in> set al. fst p = fst p'
               \<and> (\<exists>t. last_seen (snd p) = Some t \<and> \<not> now - t > ap_expiry_of (mode s))
               \<and> set (clients_of (snd p')) \<subseteq> set (clients_of (snd p)))"
    if p': "p' \<in> set al'" for p'
  proof -
    from kept [OF p'] obtain p where p: "p \<in> set ?al1" "fst p' = fst p"
      and pa: "prune_ap now (client_expiry_of (mode s)) (snd p) = Inr (snd p')"
      by blast
    from survivors_not_expired [OF ks p(1)]
    have e: "\<exists>t. last_seen (snd p) = Some t \<and> \<not> now - t > ap_expiry_of (mode s)"
      by (simp add: is_expired_iff)
    from prune_ap_clients_of [OF pa] obtain cks where
      cks: "expired_keys now (client_expiry_of (mode s)) (clients_of (snd p)) = Inr cks"
      and cl: "clients_of (snd p') = del_keys cks (clients_of (snd p))"
      by blast
    have c: "\<exists>t. last_seen (snd c) = Some t \<and> \<not> now - t > client_expiry_of (mode s)"
      if "c \<in> set (clients_of (snd p'))" for c
      using survivors_not_expired [OF cks, of c] that cl by (simp add: is_expired_iff)
    have sub: "set (clients_of (snd p')) \<subseteq> set (clients_of (snd p))"
      by (auto simp: cl del_keys_filter)
    from p(1) have "p \<in> set al" by (simp add: del_keys_filter)
    with e c sub p(2) prune_ap_last_seen [OF pa] show ?thesis by auto
  qed
  have b: "fst p \<notin> fst ` set al'"
    if p: "p \<in> set al" and ex: "\<exists>t. last_seen (snd p) = Some t \<and> now - t > ap_expiry_of (mode s)"
    for p
  proof -
    from ex have "is_expired now (ap_expiry_of (mode s)) (snd p) = Inr True"
      by (auto simp: is_expired_iff)
    with expired_keys_Inr [OF ks] p have "fst p \<in> set ks" by force
    then have "fst p \<notin> set (map fst ?al1)" by (auto simp: del_keys_filter)
    with keys have "fst p \<notin> set (map fst al')" by simp
    then show ?thesis by simp
  qed
  from m s' a b show ?thesis by auto
qed

text \<open>
  C4. The sweep returns on every store of well-formed records. After a sweep at time
  \<^verbatim>\<open>now\<close> that returns: no AP left in the store has \<^verbatim>\<open>now - last_seen\<close> above the AP
  TTL of the current mode; no client of such an AP has \<^verbatim>\<open>now - last_seen\<close> above the
  client TTL; the key of an AP beyond the TTL is gone from the store; and every client
  still in the store sits under the key of an AP that was kept, where it was before the
  sweep.
\<close>

theorem eviction_safety:
  "(wf_memory t (memory s) \<longrightarrow> fst (cleanup_memory s now) = Inr ())
   \<and> (cleanup_memory s now = (Inr (), s') \<longrightarrow>
       (\<exists>al al'. memory s = JObj al \<and> memory s' = JObj al' \<and> mode s' = mode s
         \<and> (\<forall>p' \<in> set al'.
               (\<exists>t. last_seen (snd p') = Some t \<and> \<not> now - t > ap_expiry_of (mode s'))
             \<and> (\<forall>c \<in> set (clients_of (snd p')).
                   \<exists>t. last_seen (snd c) = Some t \<and> \<not> now - t > client_expiry_of (mode s'))
             \<and> (\<exists>p \<in> set al. fst p = fst p'
                   \<and> (\<exists>t. last_seen (snd p) = Some t \<and> \<not> now - t > ap_expiry_of (mode s))
                   \<and> set (clients_of (snd p')) \<subseteq> set (clients_of (snd p))))
         \<and> (\<forall>p \<in> set al.
               (\<exists>t. last_seen (snd p) = Some t \<and> now - t > ap_expiry_of (mode s))
               \<longrightarrow> fst p \<notin> fst ` set al')))"
  using cleanup_memory_total [of t s now] sweep_result [of s now s'] by blast

text \<open>The sweep of the example store in auto mode keeps the first and third AP.\<close>

lemma cleanup_ex_auto:
  "cleanup_memory ex_auto 200000 =
     (Inr (), ex_auto\<lparr>memory_is_dirty := True,
        memory := JObj [(''aa:01'', mk_ap ''one'' 1000 198100 [(''c2'', mk_client 1000 199000)]),
                        (''aa:03'', mk_ap ''three'' 1000 199900 [])]\<rparr>)"
  by (simp add: cleanup_memory_def ex_auto_def ex_store_def init_def modes_def
      ap_expiry_of_def client_expiry_of_def AP_EXPIRY_SECONDS_def CLIENT_EXPIRY_SECONDS_def
      mk_ap_def mk_client_def is_expired_def del_keys_def prune_ap_def AList.delete_eq)

theorem eviction_safety_witness:
  "wf_memory 200000 (memory ex_auto)
   \<and> (\<exists>al'. memory (snd (cleanup_memory ex_auto 200000)) = JObj al'
         \<and> (\<forall>p' \<in> set al'. \<exists>t. last_seen (snd p') = Some t \<and> \<not> 200000 - t > 172800)
         \<and> ''aa:02'' \<notin> fst ` set al')"
proof -
  have m: "memory ex_auto = ex_store" and md: "ap_expiry_of (mode ex_auto) = 172800"
    by (simp_all add: ex_auto_def init_def ap_expiry_of_def AP_EXPIRY_SECONDS_def)
  have w: "wf_memory 200000 (memory ex_auto)"
    by (simp add: m ex_store_def wf_memory_def wf_ap_def wf_clients_def wf_times_def seen_def
        mk_ap_def mk_client_def)
  have old: "last_seen (mk_ap ''two'' 1000 20000 [(''c3'', mk_client 1000 199990)]) = Some 20000"
    by (simp add: last_seen_def mk_ap_def)
  from eviction_safety [of 200000 ex_auto 200000
      "ex_auto\<lparr>memory_is_dirty := True,
        memory := JObj [(''aa:01'', mk_ap ''one'' 1000 198100 [(''c2'', mk_client 1000 199000)]),
                        (''aa:03'', mk_ap ''three'' 1000 199900 [])]\<rparr>"]
    w m md old show ?thesis
    by (simp add: cleanup_ex_auto ex_store_def)
qed

text \<open>
  C2. A sweep that returns, on a store whose dicts hold each key once, keeps exactly the
  APs with \<^verbatim>\<open>now - last_seen\<close> at most 1800 s when the top-level mode is the string
  \<^verbatim>\<open>drive-by\<close> and at most 172800 s in every other mode, and of each kept AP exactly the
  clients within 900 s, respectively 86400 s. The sub-mode that auto mode has derived
  plays no part: with another sub-mode the sweep gives the same store.
\<close>

theorem ttl_by_top_level_mode:
  assumes "cleanup_memory s now = (Inr (), s')"
    and "memory s = JObj al"
    and "distinct (map fst al)"
    and "\<forall>p \<in> set al. distinct (map fst (clients_of (snd p)))"
  shows "\<exists>al'. memory s' = JObj al'
     \<and> map fst al' =
         map fst (filter (\<lambda>p. \<exists>t. last_seen (snd p) = Some t
                    \<and> now - t \<le> (if mode s = ''drive-by'' then 1800 else 172800)) al)
     \<and> (\<forall>p' \<in> set al'. \<exists>p \<in> set al. fst p = fst p'
           \<and> clients_of (snd p') =
               filter (\<lambda>c. \<exists>t. last_seen (snd c) = Some t
                    \<and> now - t \<le> (if mode s = ''drive-by'' then 900 else 86400))
                 (clients_of (snd p)))
     \<and> (\<forall>sub. cleanup_memory (s\<lparr>current_auto_submode := sub\<rparr>) now
                 = (Inr (), s'\<lparr>current_auto_submode := sub\<rparr>))"
proof -
  let ?a = "if mode s = ''drive-by'' then 1800 else 172800 :: real"
  let ?c = "if mode s = ''drive-by'' then 900 else 86400 :: real"
  have ttl: "ap_expiry_of (mode s) = ?a" "client_expiry_of (mode s) = ?c"
    by (simp_all add: ap_expiry_of_def client_expiry_of_def AP_EXPIRY_SECONDS_def
        CLIENT_EXPIRY_SECONDS_def DRIVE_BY_AP_EXPIRY_SECONDS_def
        DRIVE_BY_CLIENT_EXPIRY_SECONDS_def)
  from cleanup_memory_Inr [OF assms(1)] assms(2) obtain ks al' where
    ks: "expired_keys now (ap_expiry_of (mode s)) al = Inr ks"
    and pr: "prune_clients now (client_expiry_of (mode s)) (del_keys ks al) = (Inr (), al')"
    and s': "s' = s\<lparr>memory_is_dirty := True, memory := JObj al'\<rparr>"
    by auto
  let ?al1 = "del_keys ks al"
  note l2 = prune_clients_Inr [OF pr]
  have al1: "?al1 = filter (\<lambda>p. \<exists>t. last_seen (snd p) = Some t \<and> now - t \<le> ?a) al"
    using del_expired_distinct [OF assms(3) ks] by (simp only: ttl)
  have "map fst al' = map fst ?al1"
    using l2 by (induction rule: list_all2_induct) auto
  then have keys: "map fst al' =
      map fst (filter (\<lambda>p. \<exists>t. last_seen (snd p) = Some t \<and> now - t \<le> ?a) al)"
    by (simp only: al1)
  have cls: "\<exists>p \<in> set al. fst p = fst p'
      \<and> clients_of (snd p') =
          filter (\<lambda>c. \<exists>t. last_seen (snd c) = Some t \<and> now - t \<le> ?c) (clients_of (snd p))"
    if p': "p' \<in> set al'" for p'
  proof -
    from list_all2_rightD [OF l2 p'] obtain p where p: "p \<in> set ?al1" "fst p' = fst p"
      and pa: "prune_ap now (client_expiry_of (mode s)) (snd p) = Inr (snd p')"
      by blast
    from p(1) have mem: "p \<in> set al" by (simp add: del_keys_filter)
    from prune_ap_clients_of [OF pa] obtain cks where
      cks: "expired_keys now (client_expiry_of (mode s)) (clients_of (snd p)) = Inr cks"
      and cl: "clients_of (snd p') = del_keys cks (clients_of (snd p))"
      by blast
    from mem assms(4) have "distinct (map fst (clients_of (snd p)))" by blast
    from del_expired_distinct [OF this cks] cl
    have "clients_of (snd p') =
        filter (\<lambda>c. \<exists>t. last_seen (snd c) = Some t \<and> now - t \<le> ?c) (clients_of (snd p))"
      by (simp only: ttl)
    with mem p(2) show ?thesis by auto
  qed
  have sub: "cleanup_memory (s\<lparr>current_auto_submode := sub\<rparr>) now
               = (Inr (), s'\<lparr>current_auto_submode := sub\<rparr>)" for sub
    using assms(2) ks pr s' by (simp add: cleanup_memory_def)
  from s' keys cls sub show ?thesis by auto
qed

lemma cleanup_ex_drive_by:
  "cleanup_memory (ex_auto\<lparr>mode := ''drive-by''\<rparr>) 200000 =
     (Inr (), ex_auto\<lparr>mode := ''drive-by'', memory_is_dirty := True,
        memory := JObj [(''aa:03'', mk_ap ''three'' 1000 199900 [])]\<rparr>)"
  by (simp add: cleanup_memory_def ex_auto_def ex_store_def init_def
      ap_expiry_of_def client_expiry_of_def DRIVE_BY_AP_EXPIRY_SECONDS_def
      DRIVE_BY_CLIENT_EXPIRY_SECONDS_def
      mk_ap_def mk_client_def is_expired_def del_keys_def prune_ap_def AList.delete_eq)

lemma ex_store_distinct:
  "distinct (map fst [(''aa:01'', mk_ap ''one'' 1000 198100
              [(''c1'', mk_client 1000 100000), (''c2'', mk_client 1000 199000)]),
           (''aa:02'', mk_ap ''two'' 1000 20000 [(''c3'', mk_client 1000 199990)]),
           (''aa:03'', mk_ap ''three'' 1000 199900 [])])"
  "\<forall>p \<in> set [(''aa:01'', mk_ap ''one'' 1000 198100
              [(''c1'', mk_client 1000 100000), (''c2'', mk_client 1000 199000)]),
           (''aa:02'', mk_ap ''two'' 1000 20000 [(''c3'', mk_client 1000 199990)]),
           (''aa:03'', mk_ap ''three'' 1000 199900 [])].
      distinct (map fst (clients_of (snd p)))"
  by (simp_all add: clients_of_def mk_ap_def)

theorem ttl_by_top_level_mode_witness:
  "mode ex_auto = ''auto'' \<and> current_auto_submode ex_auto = Some ''drive-by''
   \<and> (\<exists>al'. memory (snd (cleanup_memory ex_auto 200000)) = JObj al'
         \<and> map fst al' = [''aa:01'', ''aa:03''])
   \<and> (\<exists>al'. memory (snd (cleanup_memory (ex_auto\<lparr>mode := ''drive-by''\<rparr>) 200000)) = JObj al'
         \<and> map fst al' = [''aa:03''])"
proof -
  have m: "memory ex_auto = JObj [(''aa:01'', mk_ap ''one'' 1000 198100
              [(''c1'', mk_client 1000 100000), (''c2'', mk_client 1000 199000)]),
           (''aa:02'', mk_ap ''two'' 1000 20000 [(''c3'', mk_client 1000 199990)]),
           (''aa:03'', mk_ap ''three'' 1000 199900 [])]"
    and md: "mode ex_auto = ''auto''" "current_auto_submode ex_auto = Some ''drive-by''"
    by (simp_all add: ex_auto_def ex_store_def init_def)
  have m': "memory (ex_auto\<lparr>mode := ''drive-by''\<rparr>) = JObj [(''aa:01'', mk_ap ''one'' 1000 198100
              [(''c1'', mk_client 1000 100000), (''c2'', mk_client 1000 199000)]),
           (''aa:02'', mk_ap ''two'' 1000 20000 [(''c3'', mk_client 1000 199990)]),
           (''aa:03'', mk_ap ''three'' 1000 199900 [])]"
    by (simp add: m)
  have ls: "last_seen (mk_ap n f l cl) = Some l" for n f l cl
    by (simp add: last_seen_def mk_ap_def)
  from ttl_by_top_level_mode [OF cleanup_ex_auto m ex_store_distinct]
    ttl_by_top_level_mode [OF cleanup_ex_drive_by m' ex_store_distinct]
    md
  show ?thesis
    by (simp add: cleanup_ex_auto cleanup_ex_drive_by ls)
qed

subsection \<open>Persistence\<close>

lemma modes_0: "modes ! 0 = ''strict''"
  by (simp add: modes_def)

lemma restore_mode_valid:
  "m \<in> set modes \<Longrightarrow> restore_mode s (JStr m) = s\<lparr>mode := m\<rparr>"
  by (simp add: restore_mode_def)

lemma restore_mode_in_modes: "mode (restore_mode s v) \<in> set modes"
  by (cases v) (auto simp: restore_mode_def modes_def)

lemma restore_mode_invalid:
  "v \<notin> JStr ` set modes \<Longrightarrow>
     restore_mode s v = s\<lparr>mode := ''strict'', logged := logged s @ [(WARNING, ''Invalid saved mode'')]\<rparr>"
  by (cases v) (auto simp: restore_mode_def modes_0)

text \<open>Loading a document with a metadata dict, step by step.\<close>

lemma load_document_metadata:
  assumes "map_of al ''plugin_metadata'' = Some (JObj md)"
  shows "load_document s (JObj al) =
     (let s3 = (restore_mode
                  (s\<lparr>memory := (case map_of al ''ap_data'' of None \<Rightarrow> JObj [] | Some v \<Rightarrow> v)\<rparr>)
                  (case map_of md ''current_mode'' of None \<Rightarrow> JStr ''strict'' | Some v \<Rightarrow> v))
                \<lparr>stationary_start :=
                    (case map_of md ''stationary_start'' of None \<Rightarrow> JNull | Some v \<Rightarrow> v)\<rparr>
      in case py_num (case map_of md ''last_saved'' of None \<Rightarrow> JNum 0 | Some v \<Rightarrow> v) of
           None \<Rightarrow> (Inl TypeError, s3)
         | Some t \<Rightarrow> (Inr (), s3))"
proof -
  from assms have "''plugin_metadata'' \<in> fst ` set al"
    by (metis domI dom_map_of_conv_image_fst)
  with assms show ?thesis
    by (simp add: load_document_def modes_0 Let_def)
qed

lemma default_in_modes: "modes ! 0 \<in> set modes"
  by (simp add: modes_def)

lemma load_document_mode: "mode s \<in> set modes \<Longrightarrow> mode (snd (load_document s d)) \<in> set modes"
  by (auto simp: load_document_def Let_def restore_mode_in_modes default_in_modes
      split: sum.splits bool.splits option.splits)

text \<open>
  C3. Saving any plugin whose mode is one of the five and loading the written file,
  into any plugin, gives back the same store (the same JSON value, so the same AP keys,
  fields and nested clients), the same top-level mode and the same stationary-start. A
  document that is a dict without the key \<^verbatim>\<open>plugin_metadata\<close> is loaded whole as the
  store, with the default mode \<^verbatim>\<open>strict\<close>.
\<close>

theorem save_load_round_trip:
  "(mode s \<in> set modes \<longrightarrow>
      fst (save_memory s now IoOk) = s
      \<and> memory (load_memory s0 (snd (save_memory s now IoOk))) = memory s
      \<and> mode (load_memory s0 (snd (save_memory s now IoOk))) = mode s
      \<and> stationary_start (load_memory s0 (snd (save_memory s now IoOk))) = stationary_start s
      \<and> logged (load_memory s0 (snd (save_memory s now IoOk))) = logged s0)
   \<and> (''plugin_metadata'' \<notin> fst ` set al \<longrightarrow>
      memory (load_memory s0 (Document (JObj al))) = JObj al
      \<and> mode (load_memory s0 (Document (JObj al))) = ''strict'')"
proof -
  have a: "load_document s0 (memory_data s now) =
      (Inr (), s0\<lparr>memory := memory s, mode := mode s, stationary_start := stationary_start s\<rparr>)"
    if "mode s \<in> set modes"
    using that
    by (simp add: memory_data_def load_document_metadata restore_mode_valid)
  have b: "load_document s0 (JObj al) = (Inr (), s0\<lparr>memory := JObj al, mode := ''strict''\<rparr>)"
    if "''plugin_metadata'' \<notin> fst ` set al"
    using that by (simp add: load_document_def modes_0)
  show ?thesis
    using a b by (simp add: save_memory_def load_memory_def)
qed

theorem save_load_round_trip_witness:
  "mode ex_dirty \<in> set modes
   \<and> memory (load_memory (init {}) (snd (save_memory ex_dirty 7 IoOk))) = ex_store
   \<and> mode (load_memory (init {}) (snd (save_memory ex_dirty 7 IoOk))) = ''recon''
   \<and> memory (load_memory (init {}) (Document ex_store)) = ex_store
   \<and> mode (load_memory (init {}) (Document ex_store)) = ''strict''"
proof -
  have m: "mode ex_dirty \<in> set modes" "mode ex_dirty = ''recon''" "memory ex_dirty = ex_store"
    by (simp_all add: ex_dirty_def modes_def)
  have l: "''plugin_metadata'' \<notin> fst ` set
      [(''aa:01'', mk_ap ''one'' 1000 198100
              [(''c1'', mk_client 1000 100000), (''c2'', mk_client 1000 199000)]),
           (''aa:02'', mk_ap ''two'' 1000 20000 [(''c3'', mk_client 1000 199990)]),
           (''aa:03'', mk_ap ''three'' 1000 199900 [])]"
    by simp
  from save_load_round_trip [of ex_dirty 7 "init {}" "[(''aa:01'', mk_ap ''one'' 1000 198100
              [(''c1'', mk_client 1000 100000), (''c2'', mk_client 1000 199000)]),
           (''aa:02'', mk_ap ''two'' 1000 20000 [(''c3'', mk_client 1000 199990)]),
           (''aa:03'', mk_ap ''three'' 1000 199900 [])]"] m l
  show ?thesis by (simp add: ex_store_def)
qed

text \<open>
  C9. \<^verbatim>\<open>_load_memory\<close> catches every exception of its body, so it is a function from
  plugin and file to plugin, and the plugin it returns has one of the five modes.
  Called on the freshly constructed plugin without a file, it leaves the empty store
  and the default mode \<^verbatim>\<open>strict\<close>. When the file cannot be parsed or reading the document
  raises, the store is empty, the mode is \<^verbatim>\<open>strict\<close> and an error is logged. When the
  document has a metadata dict whose \<^verbatim>\<open>current_mode\<close> is not one of the five strings
  and whose \<^verbatim>\<open>last_saved\<close> is absent or a number (so that reading it does not raise), the
  mode is \<^verbatim>\<open>strict\<close>, a warning is logged, and the store is the document's
  \<^verbatim>\<open>ap_data\<close>.
\<close>

theorem load_falls_back_to_defaults:
  "(mode s \<in> set modes \<longrightarrow> mode (load_memory s f) \<in> set modes)
   \<and> memory (load_memory (init wl) Absent) = JObj []
   \<and> mode (load_memory (init wl) Absent) = ''strict''
   \<and> (f = Garbage \<or> (\<exists>d. f = Document d \<and> fst (load_document s d) \<noteq> Inr ()) \<longrightarrow>
        memory (load_memory s f) = JObj [] \<and> mode (load_memory s f) = ''strict''
        \<and> (ERROR, ''Error loading memory'') \<in> set (logged (load_memory s f)))
   \<and> (map_of al ''plugin_metadata'' = Some (JObj md)
        \<and> map_of md ''current_mode'' = Some v \<and> v \<notin> JStr ` set modes
        \<and> py_num (case map_of md ''last_saved'' of None \<Rightarrow> JNum 0 | Some x \<Rightarrow> x) \<noteq> None \<longrightarrow>
        mode (load_memory s (Document (JObj al))) = ''strict''
        \<and> memory (load_memory s (Document (JObj al)))
            = (case map_of al ''ap_data'' of None \<Rightarrow> JObj [] | Some x \<Rightarrow> x)
        \<and> logged (load_memory s (Document (JObj al)))
            = logged s @ [(WARNING, ''Invalid saved mode'')])"
proof -
  have a: "mode (load_memory s f) \<in> set modes" if "mode s \<in> set modes"
  proof (cases f)
    case (Document d)
    obtain r s' where r: "load_document s d = (r, s')" by (cases "load_document s d")
    with load_document_mode [OF that, of d] have "mode s' \<in> set modes" by simp
    with r Document show ?thesis
      by (cases r) (simp_all add: load_memory_def load_failed_def modes_def)
  qed (use that in \<open>simp_all add: load_memory_def load_failed_def modes_def\<close>)
  have b: "memory (load_memory (init wl) Absent) = JObj []"
    "mode (load_memory (init wl) Absent) = ''strict''"
    by (simp_all add: load_memory_def init_def modes_0)
  have c: "memory (load_memory s f) = JObj [] \<and> mode (load_memory s f) = ''strict''
        \<and> (ERROR, ''Error loading memory'') \<in> set (logged (load_memory s f))"
    if "f = Garbage \<or> (\<exists>d. f = Document d \<and> fst (load_document s d) \<noteq> Inr ())"
    using that
    by (auto simp: load_memory_def load_failed_def modes_0 split: prod.splits sum.splits)
  have d: "mode (load_memory s (Document (JObj al))) = ''strict''
        \<and> memory (load_memory s (Document (JObj al)))
            = (case map_of al ''ap_data'' of None \<Rightarrow> JObj [] | Some x \<Rightarrow> x)
        \<and> logged (load_memory s (Document (JObj al)))
            = logged s @ [(WARNING, ''Invalid saved mode'')]"
    if "map_of al ''plugin_metadata'' = Some (JObj md)"
      and "map_of md ''current_mode'' = Some v" and "v \<notin> JStr ` set modes"
      and "py_num (case map_of md ''last_saved'' of None \<Rightarrow> JNum 0 | Some x \<Rightarrow> x) \<noteq> None"
    using that
    by (auto simp: load_memory_def load_document_metadata [OF that(1)] restore_mode_invalid)
  from a b c d show ?thesis by blast
qed

lemma load_ex_doc_bad_stamp:
  "fst (load_document (init {}) ex_doc_bad_stamp) = Inl TypeError"
  by (simp add: ex_doc_bad_stamp_def load_document_def modes_def restore_mode_def)

theorem load_falls_back_to_defaults_witness:
  "mode (init {}) \<in> set modes
   \<and> mode (load_memory (init {}) (Document ex_doc_bad_mode)) = ''strict''
   \<and> memory (load_memory (init {}) (Document ex_doc_bad_mode)) = ex_store
   \<and> memory (load_memory (init {}) (Document ex_doc_bad_stamp)) = JObj []
   \<and> mode (load_memory (init {}) (Document ex_doc_bad_stamp)) = ''strict''
   \<and> mode (load_memory (init {}) Garbage) \<in> set modes"
proof -
  have i: "mode (init {}) \<in> set modes"
    by (simp add: init_def modes_def)
  have v: "JStr ''stealth'' \<notin> JStr ` set modes"
    by (simp add: modes_def)
  have f: "fst (load_document (init {}) ex_doc_bad_stamp) \<noteq> Inr ()"
    by (simp add: load_ex_doc_bad_stamp)
  from load_falls_back_to_defaults [of "init {}" "Document ex_doc_bad_stamp" "{}"
      "[(''plugin_metadata'', JObj [(''current_mode'', JStr ''stealth''), (''last_saved'', JNum 5)]),
        (''ap_data'', ex_store)]"
      "[(''current_mode'', JStr ''stealth''), (''last_saved'', JNum 5)]" "JStr ''stealth''"]
    load_falls_back_to_defaults [of "init {}" Garbage "{}" "[]" "[]" JNull]
    i v f
  show ?thesis by (simp add: ex_doc_bad_mode_def) (simp add: modes_def)
qed

subsection \<open>The dirty flag\<close>

lemma touch_ap_dirty:
  "memory_is_dirty s \<Longrightarrow> memory_is_dirty (snd (touch_ap now ob mac n s))"
  by (simp add: touch_ap_def split: json.splits option.splits)

lemma touch_client_dirty:
  "memory_is_dirty s \<Longrightarrow> memory_is_dirty (snd (touch_client now mac cmac s))"
  by (simp add: touch_client_def split: json.splits option.splits)

lemma process_clients_dirty:
  "memory_is_dirty s \<Longrightarrow> memory_is_dirty (snd (process_clients now mac cs s))"
proof (induction cs arbitrary: s)
  case Nil
  then show ?case by simp
next
  case (Cons c cs)
  from touch_client_dirty [OF Cons.prems, of now mac "lower (client_mac c)"] Cons.IH Cons.prems
  show ?case
    by (auto simp: Let_def split: prod.splits sum.splits)
qed

lemma process_ap_dirty:
  "memory_is_dirty s \<Longrightarrow> memory_is_dirty (snd (process_ap now ob n s))"
  using touch_ap_dirty [of s now ob "lower (ap_mac ob)" n]
    process_clients_dirty [of "snd (touch_ap now ob (lower (ap_mac ob)) n s)" now
      "lower (ap_mac ob)" "clients ob"]
  by (auto simp: process_ap_def Let_def split: prod.splits sum.splits)

lemma process_aps_dirty:
  "memory_is_dirty s \<Longrightarrow> memory_is_dirty (snd (process_aps now obs n s))"
proof (induction obs arbitrary: s n)
  case Nil
  then show ?case by simp
next
  case (Cons ob obs)
  from process_ap_dirty [OF Cons.prems, of now ob n] Cons.IH
  show ?case
    by (auto split: prod.splits sum.splits)
qed

lemma is_stationary_dirty:
  "memory_is_dirty (snd (is_stationary s now)) = memory_is_dirty s"
  by (simp add: is_stationary_def Let_def split: option.splits)

lemma auto_mode_logic_dirty:
  "memory_is_dirty (snd (auto_mode_logic s now_s now_m)) = memory_is_dirty s"
  using is_stationary_dirty [of s now_s]
  by (auto simp: auto_mode_logic_def Let_def split: sum.splits prod.splits)

lemma on_unfiltered_ap_list_dirty:
  assumes "memory_is_dirty s"
  shows "memory_is_dirty (on_unfiltered_ap_list s aps now now_h now_s now_m)"
proof -
  let ?s0 = "if now - last_activity_check s > 30 then s\<lparr>last_activity_check := now\<rparr> else s"
  have d0: "memory_is_dirty ?s0" using assms by simp
  obtain r s1 where p: "process_aps now aps 0 ?s0 = (r, s1)"
    by (cases "process_aps now aps 0 ?s0")
  with process_aps_dirty [OF d0, of now aps 0] have d1: "memory_is_dirty s1" by simp
  have d2: "memory_is_dirty (snd (auto_mode_logic (update_activity_history s1 t n) now_s now_m))"
    for t n
    using d1 by (simp add: auto_mode_logic_dirty update_activity_history_def Let_def)
  show ?thesis
  proof (cases r)
    case (Inl e)
    with p d1 assms show ?thesis by (simp add: on_unfiltered_ap_list_def)
  next
    case (Inr n)
    with p d1 d2 [of now_h n] assms show ?thesis
      by (auto simp: on_unfiltered_ap_list_def Let_def update_activity_history_def
          split: prod.splits sum.splits)
  qed
qed

lemma cleanup_memory_dirty: "memory_is_dirty (snd (cleanup_memory s now))"
  by (simp add: cleanup_memory_def Let_def split: json.splits sum.splits prod.splits)

lemma load_memory_dirty: "memory_is_dirty (load_memory s f) = memory_is_dirty s"
proof -
  have "memory_is_dirty (restore_mode x v) = memory_is_dirty x" for x v
    by (cases v) (simp_all add: restore_mode_def)
  then have d: "memory_is_dirty (snd (load_document s d)) = memory_is_dirty s" for d
    by (simp add: load_document_def Let_def split: sum.splits bool.splits option.splits)
  show ?thesis
  proof (cases f)
    case (Document x)
    obtain r s' where r: "load_document s x = (r, s')" by (cases "load_document s x")
    with d [of x] have "memory_is_dirty s' = memory_is_dirty s" by simp
    with r Document show ?thesis
      by (cases r) (simp_all add: load_memory_def load_failed_def)
  qed (simp_all add: load_memory_def load_failed_def)
qed

text \<open>
  C1, as the code has it. A tick on a ready plugin that returns attempts a save exactly
  when the flag is set after the optional sweep and the epoch is a multiple of 5. The
  flag is then cleared whether the write succeeded or failed: a failed write appends
  an error record and leaves store and mode as they were. Without an attempt the tick
  leaves flag and file alone. No other handler clears the flag: ingest, load, save and
  unload keep it set, and the sweep sets it.
\<close>

theorem dirty_cleared_after_every_save_attempt:
  assumes "ready s" and "on_epoch s epoch now_c now_w w f = (Inr (), s', f')"
  shows "(let s1 = (if epoch mod 10 = 0 then snd (cleanup_memory s now_c) else s)
          in (memory_is_dirty s1 \<and> epoch mod 5 = 0 \<longrightarrow>
                \<not> memory_is_dirty s' \<and> memory s' = memory s1 \<and> mode s' = mode s1
                \<and> (w = IoOk \<longrightarrow> f' = Document (memory_data s1 now_w) \<and> logged s' = logged s1)
                \<and> (\<forall>left. w = IoFail left \<longrightarrow>
                      f' = left \<and> logged s' = logged s1 @ [(ERROR, ''Error saving memory'')]))
           \<and> (\<not> (memory_is_dirty s1 \<and> epoch mod 5 = 0) \<longrightarrow> s' = s1 \<and> f' = f))
         \<and> (memory_is_dirty s \<longrightarrow>
               memory_is_dirty (on_unfiltered_ap_list s aps t1 t2 t3 t4)
             \<and> memory_is_dirty (load_memory s f0)
             \<and> memory_is_dirty (fst (save_memory s t1 w0))
             \<and> memory_is_dirty (fst (on_unload s t1 w0 f0)))
         \<and> memory_is_dirty (snd (cleanup_memory s t1))"
proof -
  have a: "memory_is_dirty s \<longrightarrow>
               memory_is_dirty (on_unfiltered_ap_list s aps t1 t2 t3 t4)
             \<and> memory_is_dirty (load_memory s f0)
             \<and> memory_is_dirty (fst (save_memory s t1 w0))
             \<and> memory_is_dirty (fst (on_unload s t1 w0 f0))"
    by (cases w0) (simp_all add: on_unfiltered_ap_list_dirty load_memory_dirty save_memory_def
        on_unload_def)
  obtain r s1 where c: "(if epoch mod 10 = 0 then cleanup_memory s now_c else (Inr (), s)) = (r, s1)"
    by (cases "if epoch mod 10 = 0 then cleanup_memory s now_c else (Inr (), s)")
  then have s1: "(if epoch mod 10 = 0 then snd (cleanup_memory s now_c) else s) = s1"
    by (auto split: if_splits)
  from assms c have r: "r = Inr ()"
    by (cases r) (auto simp: on_epoch_def split: if_splits prod.splits)
  have b: "(memory_is_dirty s1 \<and> epoch mod 5 = 0 \<longrightarrow>
                \<not> memory_is_dirty s' \<and> memory s' = memory s1 \<and> mode s' = mode s1
                \<and> (w = IoOk \<longrightarrow> f' = Document (memory_data s1 now_w) \<and> logged s' = logged s1)
                \<and> (\<forall>left. w = IoFail left \<longrightarrow>
                      f' = left \<and> logged s' = logged s1 @ [(ERROR, ''Error saving memory'')]))
           \<and> (\<not> (memory_is_dirty s1 \<and> epoch mod 5 = 0) \<longrightarrow> s' = s1 \<and> f' = f)"
    using assms c r
    by (cases w) (auto simp: on_epoch_def save_memory_def split: if_splits)
  from a b s1 cleanup_memory_dirty [of s t1] show ?thesis
    by (simp add: Let_def)
qed

text \<open>
  C1 as stated does not hold: the flag does not stay set after a failed write. Here the
  write of epoch 5 fails, the flag is cleared, and unloading afterwards with a working
  disk writes nothing.
\<close>

theorem dirty_lost_after_failed_save:
  "memory_is_dirty ex_dirty
   \<and> on_epoch ex_dirty 5 0 0 (IoFail Absent) Absent =
       (Inr (), ex_dirty\<lparr>memory_is_dirty := False,
                  logged := [(ERROR, ''Error saving memory'')]\<rparr>, Absent)
   \<and> on_unload (ex_dirty\<lparr>memory_is_dirty := False,
                  logged := [(ERROR, ''Error saving memory'')]\<rparr>) 1 IoOk Absent =
       (ex_dirty\<lparr>memory_is_dirty := False, logged := [(ERROR, ''Error saving memory'')]\<rparr>,
        Absent)"
  by (simp add: ex_dirty_def init_def on_epoch_def save_memory_def on_unload_def)

theorem dirty_cleared_after_every_save_attempt_witness:
  "ready ex_dirty \<and> memory_is_dirty ex_dirty
   \<and> \<not> memory_is_dirty (fst (snd (on_epoch ex_dirty 5 0 0 (IoFail Absent) Absent)))
   \<and> snd (snd (on_epoch ex_dirty 5 0 0 (IoFail Absent) Absent)) = Absent
   \<and> logged (fst (snd (on_epoch ex_dirty 5 0 0 (IoFail Absent) Absent)))
       = [(ERROR, ''Error saving memory'')]"
proof -
  have r: "ready ex_dirty" and d: "memory_is_dirty ex_dirty" and l: "logged ex_dirty = []"
    by (simp_all add: ex_dirty_def init_def)
  have e: "on_epoch ex_dirty 5 0 0 (IoFail Absent) Absent =
       (Inr (), ex_dirty\<lparr>memory_is_dirty := False,
                  logged := [(ERROR, ''Error saving memory'')]\<rparr>, Absent)"
    by (simp add: ex_dirty_def init_def on_epoch_def save_memory_def)
  from dirty_cleared_after_every_save_attempt [OF r e] r d l show ?thesis
    by (simp add: e)
qed

subsection \<open>Ingest\<close>

lemma list_all_update:
  "list_all P al \<Longrightarrow> P (k, v) \<Longrightarrow> list_all P (AList.update k v al)"
  by (induction al) auto

lemma list_all_map_of: "list_all P al \<Longrightarrow> map_of al k = Some v \<Longrightarrow> P (k, v)"
  by (auto simp: list_all_iff dest: map_of_SomeD)

lemma all_dicts_lookup:
  "all_dicts cl \<Longrightarrow> map_of cl k = Some v \<Longrightarrow> \<exists>c. v = JObj c"
  using list_all_map_of [of "\<lambda>p. case snd p of JObj c \<Rightarrow> True | _ \<Rightarrow> False" cl k v]
  by (cases v) (simp_all add: all_dicts_def)

lemma touch_cl_all_dicts: "all_dicts cl \<Longrightarrow> all_dicts (touch_cl now cl cmac)"
  by (auto simp: all_dicts_def touch_cl_def new_client_entry_def intro!: list_all_update
      split: option.splits json.splits)

lemma clients_after_all_dicts: "all_dicts cl \<Longrightarrow> all_dicts (clients_after now cs cl)"
proof -
  have "all_dicts cl \<Longrightarrow> all_dicts (foldl (touch_cl now) cl ms)" for ms
    by (induction ms arbitrary: cl) (simp_all add: touch_cl_all_dicts)
  then show "all_dicts cl \<Longrightarrow> all_dicts (clients_after now cs cl)"
    by (simp add: clients_after_def)
qed

lemma touch_client_effect:
  assumes "memory s = JObj al" and "map_of al mac = Some (JObj e)"
    and "map_of e ''clients'' = Some (JObj cl)" and "all_dicts cl"
  shows "fst (touch_client now mac cmac s) = Inr ()"
    and "memory (snd (touch_client now mac cmac s)) =
           JObj (AList.update mac (JObj (AList.update ''clients''
                   (JObj (touch_cl now cl cmac)) e)) al)"
  using assms all_dicts_lookup [OF assms(4), of cmac]
  by (auto simp: touch_client_def touch_cl_def split: option.splits json.splits)

lemma process_clients_effect:
  assumes "memory s = JObj al" and "map_of al mac = Some (JObj e)"
    and "map_of e ''clients'' = Some (JObj cl)" and "all_dicts cl"
  shows "fst (process_clients now mac cs s) = Inr ()
       \<and> memory (snd (process_clients now mac cs s)) =
           JObj (AList.update mac (JObj (AList.update ''clients''
                   (JObj (clients_after now cs cl)) e)) al)"
  using assms
proof (induction cs arbitrary: s al e cl)
  case Nil
  then show ?case by (simp add: clients_after_def update_triv)
next
  case (Cons c cs)
  let ?m = "lower (client_mac c)"
  show ?case
  proof (cases "?m = []")
    case True
    with Cons.IH [OF Cons.prems] show ?thesis by (simp add: clients_after_def)
  next
    case False
    obtain s1 where s1: "touch_client now mac ?m s = (Inr (), s1)"
      using touch_client_effect(1) [OF Cons.prems, of now ?m]
      by (cases "touch_client now mac ?m s") auto
    let ?cl1 = "touch_cl now cl ?m"
    let ?e1 = "AList.update ''clients'' (JObj ?cl1) e"
    let ?al1 = "AList.update mac (JObj ?e1) al"
    from touch_client_effect(2) [OF Cons.prems, of now ?m] s1
    have m1: "memory s1 = JObj ?al1" by simp
    have l1: "map_of ?al1 mac = Some (JObj ?e1)" and l2: "map_of ?e1 ''clients'' = Some (JObj ?cl1)"
      by (simp_all add: update_conv')
    from Cons.IH [OF m1 l1 l2 touch_cl_all_dicts [OF Cons.prems(4)]] s1 False
    show ?thesis by (simp add: clients_after_def)
  qed
qed

lemma touch_client_frame:
  "f \<noteq> ''clients'' \<Longrightarrow>
     field_of (memory (snd (touch_client now mac cmac s))) k f = field_of (memory s) k f"
  by (auto simp: touch_client_def field_of_def update_conv' split: option.splits json.splits)

lemma process_clients_frame:
  "f \<noteq> ''clients'' \<Longrightarrow>
     field_of (memory (snd (process_clients now mac cs s))) k f = field_of (memory s) k f"
proof (induction cs arbitrary: s)
  case Nil
  then show ?case by simp
next
  case (Cons c cs)
  from Cons.IH [OF Cons.prems] touch_client_frame [OF Cons.prems, of now mac "lower (client_mac c)" s k]
  show ?case
    by (auto simp: Let_def split: prod.splits sum.splits)
qed


lemma process_ap_snd:
  assumes "lower (ap_mac ob) \<noteq> []"
    and "touch_ap now ob (lower (ap_mac ob)) n s = (Inr n', s1)"
  shows "snd (process_ap now ob n s) = snd (process_clients now (lower (ap_mac ob)) (clients ob) s1)"
    and "fst (process_clients now (lower (ap_mac ob)) (clients ob) s1) = Inr ()
           \<Longrightarrow> fst (process_ap now ob n s) = Inr n'"
  using assms by (auto simp: process_ap_def Let_def split: prod.splits sum.splits)

lemma touch_ap_new:
  assumes "memory s = JObj al" and "map_of al mac = None"
  shows "touch_ap now ob mac n s =
           (Inr (n + 1), s\<lparr>memory := JObj (AList.update mac (new_ap_entry ob now) al),
                           memory_is_dirty := True\<rparr>)"
  using assms by (simp add: touch_ap_def)

lemma touch_ap_known:
  assumes "memory s = JObj al" and "map_of al mac = Some (JObj e)"
  shows "touch_ap now ob mac n s =
           (Inr n, s\<lparr>memory := JObj (AList.update mac (JObj (update_ap_entry ob now e)) al)\<rparr>)"
  using assms by (simp add: touch_ap_def)

lemma update_ap_entry_fields:
  "map_of (update_ap_entry ob now e) ''last_seen'' = Some (JNum now)"
  "map_of (update_ap_entry ob now e) ''rssi'' = Some (JNum (of_int (rssi ob)))"
  "map_of (update_ap_entry ob now e) ''ssid'' =
     (if hostname ob \<noteq> [] then Some (JStr (hostname ob)) else map_of e ''ssid'')"
  "f \<notin> {''last_seen'', ''rssi'', ''ssid''} \<Longrightarrow> map_of (update_ap_entry ob now e) f = map_of e f"
  by (simp_all add: update_ap_entry_def Let_def update_conv')

lemma handler_memory:
  assumes "ready s"
  shows "memory (on_unfiltered_ap_list s aps now now_h now_s now_m) =
           memory (snd (process_aps now aps 0
             (if now - last_activity_check s > 30 then s\<lparr>last_activity_check := now\<rparr> else s)))"
proof -
  let ?s0 = "if now - last_activity_check s > 30 then s\<lparr>last_activity_check := now\<rparr> else s"
  obtain r s1 where p: "process_aps now aps 0 ?s0 = (r, s1)"
    by (cases "process_aps now aps 0 ?s0")
  have a: "memory (snd (auto_mode_logic x t t')) = memory x" for x t t'
    using is_stationary_keeps(2) [of x t]
    by (auto simp: auto_mode_logic_def Let_def split: sum.splits prod.splits)
  have "memory (on_unfiltered_ap_list s aps now now_h now_s now_m) = memory s1"
  proof (cases r)
    case (Inl e)
    with p assms show ?thesis by (simp add: on_unfiltered_ap_list_def)
  next
    case (Inr n)
    with p assms a [of "update_activity_history s1 now_h n" now_s now_m] show ?thesis
      by (auto simp: on_unfiltered_ap_list_def Let_def update_activity_history_def
          split: prod.splits sum.splits)
  qed
  with p show ?thesis by simp
qed

text \<open>What the loop body does with one observation, and what the handler keeps of the loop.\<close>

lemma process_ap_effect:
  "(lower (ap_mac ob) = [] \<longrightarrow> process_ap now ob n s = (Inr n, s))
   \<and> (lower (ap_mac ob) \<noteq> [] \<and> memory s = JObj al \<and> map_of al (lower (ap_mac ob)) = None \<longrightarrow>
        fst (process_ap now ob n s) = Inr (n + 1)
        \<and> memory_is_dirty (snd (process_ap now ob n s))
        \<and> field_of (memory (snd (process_ap now ob n s))) (lower (ap_mac ob)) ''first_seen''
            = Some (JNum now)
        \<and> field_of (memory (snd (process_ap now ob n s))) (lower (ap_mac ob)) ''last_seen''
            = Some (JNum now)
        \<and> field_of (memory (snd (process_ap now ob n s))) (lower (ap_mac ob)) ''ssid''
            = Some (JStr (hostname ob))
        \<and> field_of (memory (snd (process_ap now ob n s))) (lower (ap_mac ob)) ''rssi''
            = Some (JNum (of_int (rssi ob))))
   \<and> (lower (ap_mac ob) \<noteq> [] \<and> memory s = JObj al
        \<and> map_of al (lower (ap_mac ob)) = Some (JObj e) \<longrightarrow>
        field_of (memory (snd (process_ap now ob n s))) (lower (ap_mac ob)) ''last_seen''
            = Some (JNum now)
        \<and> field_of (memory (snd (process_ap now ob n s))) (lower (ap_mac ob)) ''rssi''
            = Some (JNum (of_int (rssi ob)))
        \<and> field_of (memory (snd (process_ap now ob n s))) (lower (ap_mac ob)) ''ssid''
            = (if hostname ob \<noteq> [] then Some (JStr (hostname ob)) else map_of e ''ssid'')
        \<and> field_of (memory (snd (process_ap now ob n s))) (lower (ap_mac ob)) ''first_seen''
            = map_of e ''first_seen''
        \<and> (\<forall>cl. map_of e ''clients'' = Some (JObj cl) \<and> all_dicts cl \<longrightarrow>
              fst (process_ap now ob n s) = Inr n))
   \<and> (ready s \<longrightarrow>
        memory (on_unfiltered_ap_list s aps now now_h now_s now_m) =
          memory (snd (process_aps now aps 0
            (if now - last_activity_check s > 30 then s\<lparr>last_activity_check := now\<rparr> else s))))"
proof -
  let ?mac = "lower (ap_mac ob)"
  let ?s' = "snd (process_ap now ob n s)"
  have a: "?mac = [] \<longrightarrow> process_ap now ob n s = (Inr n, s)"
    by (simp add: process_ap_def)
  have b: "fst (process_ap now ob n s) = Inr (n + 1) \<and> memory_is_dirty ?s'
        \<and> field_of (memory ?s') ?mac ''first_seen'' = Some (JNum now)
        \<and> field_of (memory ?s') ?mac ''last_seen'' = Some (JNum now)
        \<and> field_of (memory ?s') ?mac ''ssid'' = Some (JStr (hostname ob))
        \<and> field_of (memory ?s') ?mac ''rssi'' = Some (JNum (of_int (rssi ob)))"
    if ne: "?mac \<noteq> []" and m: "memory s = JObj al" and new: "map_of al ?mac = None"
  proof -
    let ?al1 = "AList.update ?mac (new_ap_entry ob now) al"
    let ?s1 = "s\<lparr>memory := JObj ?al1, memory_is_dirty := True\<rparr>"
    obtain e0 where e0: "new_ap_entry ob now = JObj e0"
      and cl0: "map_of e0 ''clients'' = Some (JObj [])"
      and f0: "map_of e0 ''first_seen'' = Some (JNum now)" "map_of e0 ''last_seen'' = Some (JNum now)"
        "map_of e0 ''ssid'' = Some (JStr (hostname ob))"
        "map_of e0 ''rssi'' = Some (JNum (of_int (rssi ob)))"
      by (simp add: new_ap_entry_def)
    note t = touch_ap_new [OF m new, of now ob n]
    have m1: "memory ?s1 = JObj ?al1" by simp
    have l1: "map_of ?al1 ?mac = Some (JObj e0)" by (simp add: update_conv' e0)
    have ad: "all_dicts []" by (simp add: all_dicts_def)
    from process_clients_effect [OF m1 l1 cl0 ad, of now "clients ob"]
    have ok: "fst (process_clients now ?mac (clients ob) ?s1) = Inr ()" by simp
    have fr: "field_of (memory ?s') ?mac f = map_of e0 f" if "f \<noteq> ''clients''" for f
      using process_clients_frame [OF that, of now ?mac "clients ob" ?s1 ?mac] l1
      by (simp add: process_ap_snd(1) [OF ne t] field_of_def)
    have d: "memory_is_dirty ?s'"
      using process_clients_dirty [of ?s1 now ?mac "clients ob"]
      by (simp add: process_ap_snd(1) [OF ne t])
    from process_ap_snd(2) [OF ne t ok] d fr f0 show ?thesis by simp
  qed
  have c: "field_of (memory ?s') ?mac ''last_seen'' = Some (JNum now)
        \<and> field_of (memory ?s') ?mac ''rssi'' = Some (JNum (of_int (rssi ob)))
        \<and> field_of (memory ?s') ?mac ''ssid''
            = (if hostname ob \<noteq> [] then Some (JStr (hostname ob)) else map_of e ''ssid'')
        \<and> field_of (memory ?s') ?mac ''first_seen'' = map_of e ''first_seen''
        \<and> (\<forall>cl. map_of e ''clients'' = Some (JObj cl) \<and> all_dicts cl \<longrightarrow>
              fst (process_ap now ob n s) = Inr n)"
    if ne: "?mac \<noteq> []" and m: "memory s = JObj al" and old: "map_of al ?mac = Some (JObj e)"
  proof -
    let ?e1 = "update_ap_entry ob now e"
    let ?al1 = "AList.update ?mac (JObj ?e1) al"
    let ?s1 = "s\<lparr>memory := JObj ?al1\<rparr>"
    note t = touch_ap_known [OF m old, of now ob n]
    have m1: "memory ?s1 = JObj ?al1" by simp
    have l1: "map_of ?al1 ?mac = Some (JObj ?e1)" by (simp add: update_conv')
    have fr: "field_of (memory ?s') ?mac f = map_of ?e1 f" if "f \<noteq> ''clients''" for f
      using process_clients_frame [OF that, of now ?mac "clients ob" ?s1 ?mac] l1
      by (simp add: process_ap_snd(1) [OF ne t] field_of_def)
    have ok: "fst (process_ap now ob n s) = Inr n"
      if cl: "map_of e ''clients'' = Some (JObj cl)" and ad: "all_dicts cl" for cl
    proof -
      from cl have "map_of ?e1 ''clients'' = Some (JObj cl)"
        by (simp add: update_ap_entry_fields(4))
      from process_clients_effect [OF m1 l1 this ad, of now "clients ob"]
        process_ap_snd(2) [OF ne t]
      show ?thesis by simp
    qed
    from fr ok show ?thesis
      by (simp add: update_ap_entry_fields)
  qed
  from a b c handler_memory show ?thesis by blast
qed

lemma lower_ex: "lower ''AA:BB'' = ''aa:bb''" "lower ''C1'' = ''c1''"
  by code_simp+

subsection \<open>Time stamps over a sequence of batches\<close>

lemma seen_eq: "seen (JObj e) k = Some x \<longleftrightarrow> map_of e k = Some (JNum x)"
  by (auto simp: seen_def split: option.splits json.splits)

lemma wf_times_dict: "wf_times t d \<Longrightarrow> \<exists>e. d = JObj e"
  by (cases d) (simp_all add: wf_times_def seen_def)

lemma wf_times_iff:
  "wf_times t (JObj e) \<longleftrightarrow>
     (\<exists>f l. map_of e ''first_seen'' = Some (JNum f) \<and> map_of e ''last_seen'' = Some (JNum l)
            \<and> f \<le> l \<and> l \<le> t)"
  by (auto simp: wf_times_def seen_def split: option.splits json.splits)

lemma wf_times_mono: "wf_times t d \<Longrightarrow> t \<le> t' \<Longrightarrow> wf_times t' d"
  by (auto simp: wf_times_def split: option.splits)

lemma wf_clients_mono: "wf_clients t cs \<Longrightarrow> t \<le> t' \<Longrightarrow> wf_clients t' cs"
  by (cases cs) (auto simp: wf_clients_def list_all_iff intro: wf_times_mono)

lemma wf_ap_mono: "wf_ap t a \<Longrightarrow> t \<le> t' \<Longrightarrow> wf_ap t' a"
  by (auto simp: wf_ap_def split: option.splits intro: wf_times_mono wf_clients_mono)

lemma wf_memory_mono: "wf_memory t m \<Longrightarrow> t \<le> t' \<Longrightarrow> wf_memory t' m"
  by (cases m) (auto simp: wf_memory_def list_all_iff intro: wf_ap_mono)

lemma seen_le_refl: "wf_times t d \<Longrightarrow> seen_le d d"
  by (auto simp: wf_times_def seen_le_def split: option.splits)

lemma seen_le_trans: "seen_le a b \<Longrightarrow> seen_le b c \<Longrightarrow> seen_le a c"
  by (auto simp: seen_le_def split: option.splits)

lemma dict_grows_trans:
  assumes "\<And>x y z. R x y \<Longrightarrow> R y z \<Longrightarrow> R x z" and "dict_grows R a b" and "dict_grows R b c"
  shows "dict_grows R a c"
  using assms unfolding dict_grows_def by blast

lemma wf_clients_all_dicts: "wf_clients t (JObj cl) \<Longrightarrow> all_dicts cl"
  by (auto simp: wf_clients_def all_dicts_def list_all_iff dest!: wf_times_dict)

lemma wf_clients_lookup:
  "wf_clients t (JObj cl) \<Longrightarrow> map_of cl k = Some v \<Longrightarrow> wf_times t v"
  by (auto simp: wf_clients_def dest: list_all_map_of)

lemma clients_grow_refl: "wf_clients t cs \<Longrightarrow> dict_grows seen_le cs cs"
  by (cases cs) (auto simp: dict_grows_def dest: wf_clients_lookup seen_le_refl)

lemma touch_cl_wf:
  assumes "wf_clients t (JObj cl)" and "t \<le> now"
  shows "wf_clients now (JObj (touch_cl now cl cmac))"
proof -
  from assms have d: "distinct (map fst cl)" and a: "list_all (\<lambda>p. wf_times now (snd p)) cl"
    by (auto simp: wf_clients_def list_all_iff intro: wf_times_mono)
  have n: "wf_times now (new_client_entry now)"
    by (simp add: new_client_entry_def wf_times_def seen_def)
  have u: "wf_times now (JObj (AList.update ''last_seen'' (JNum now) c))"
    if "map_of cl cmac = Some (JObj c)" for c
    using wf_clients_lookup [OF assms(1) that] assms(2)
    by (auto simp: wf_times_iff update_conv')
  show ?thesis
    using d a n u
    by (auto simp: wf_clients_def touch_cl_def distinct_update intro!: list_all_update
        split: option.splits json.splits)
qed

lemma touch_cl_grows:
  assumes "wf_clients t (JObj cl)" and "t \<le> now"
  shows "dict_grows seen_le (JObj cl) (JObj (touch_cl now cl cmac))"
  unfolding dict_grows_def
proof (intro allI impI)
  fix k v
  assume kv: "jlookup (JObj cl) k = Some v"
  then have wv: "wf_times t v" using wf_clients_lookup [OF assms(1)] by simp
  show "\<exists>v'. jlookup (JObj (touch_cl now cl cmac)) k = Some v' \<and> seen_le v v'"
  proof (cases "k = cmac")
    case False
    with kv seen_le_refl [OF wv] show ?thesis
      by (auto simp: touch_cl_def update_conv' split: option.splits json.splits)
  next
    case True
    from wf_times_dict [OF wv] obtain c where c: "v = JObj c" by blast
    from wv c assms(2) have "seen_le (JObj c) (JObj (AList.update ''last_seen'' (JNum now) c))"
      by (auto simp: wf_times_iff seen_le_def seen_def update_conv')
    with kv True c show ?thesis
      by (simp add: touch_cl_def update_conv')
  qed
qed

lemma clients_after_wf_grows:
  assumes "wf_clients t (JObj cl)" and "t \<le> now"
  shows "wf_clients now (JObj (clients_after now cs cl))
       \<and> dict_grows seen_le (JObj cl) (JObj (clients_after now cs cl))"
proof -
  have "wf_clients now (JObj (foldl (touch_cl now) cl ms))
       \<and> dict_grows seen_le (JObj cl) (JObj (foldl (touch_cl now) cl ms))"
    if "wf_clients t (JObj cl)" and "t \<le> now" for ms t cl
    using that
  proof (induction ms arbitrary: cl t)
    case Nil
    then show ?case by (auto intro: wf_clients_mono clients_grow_refl)
  next
    case (Cons m ms)
    note w1 = touch_cl_wf [OF Cons.prems, of m] and g1 = touch_cl_grows [OF Cons.prems, of m]
    from Cons.IH [OF w1 order_refl] g1 show ?case
      by (auto intro: dict_grows_trans [OF seen_le_trans])
  qed
  from this [OF assms] show ?thesis by (simp add: clients_after_def)
qed

lemma ap_le_refl: "wf_ap t a \<Longrightarrow> ap_le a a"
  by (auto simp: wf_ap_def ap_le_def split: option.splits
      intro: seen_le_refl clients_grow_refl)

lemma ap_le_trans: "ap_le a b \<Longrightarrow> ap_le b c \<Longrightarrow> ap_le a c"
  by (auto simp: ap_le_def split: option.splits
      intro: seen_le_trans dict_grows_trans [OF seen_le_trans])

lemma wf_memory_lookup: "wf_memory t (JObj al) \<Longrightarrow> map_of al k = Some a \<Longrightarrow> wf_ap t a"
  by (auto simp: wf_memory_def dest: list_all_map_of)

lemma mem_grows_refl: "wf_memory t m \<Longrightarrow> mem_grows m m"
  by (cases m) (auto simp: mem_grows_def dict_grows_def dest: wf_memory_lookup ap_le_refl)

lemma mem_grows_trans: "mem_grows a b \<Longrightarrow> mem_grows b c \<Longrightarrow> mem_grows a c"
  unfolding mem_grows_def by (rule dict_grows_trans [OF ap_le_trans])

lemma memory_update_wf_grows:
  assumes wf: "wf_memory t (JObj al)" and le: "t \<le> now" and a': "wf_ap now a'"
    and old: "\<And>a. map_of al mac = Some a \<Longrightarrow> ap_le a a'"
  shows "wf_memory now (JObj (AList.update mac a' al))"
    and "mem_grows (JObj al) (JObj (AList.update mac a' al))"
proof -
  from wf_memory_mono [OF wf le] a'
  show "wf_memory now (JObj (AList.update mac a' al))"
    by (auto simp: wf_memory_def distinct_update intro!: list_all_update)
  show "mem_grows (JObj al) (JObj (AList.update mac a' al))"
    using old wf_memory_lookup [OF wf]
    by (auto simp: mem_grows_def dict_grows_def update_conv' dest: ap_le_refl)
qed

lemma wf_ap_cases:
  assumes "wf_ap t a"
  obtains e f l cl where "a = JObj e" "map_of e ''first_seen'' = Some (JNum f)"
    "map_of e ''last_seen'' = Some (JNum l)" "f \<le> l" "l \<le> t"
    "map_of e ''clients'' = Some (JObj cl)" "wf_clients t (JObj cl)"
proof -
  from assms have wt: "wf_times t a" by (simp add: wf_ap_def)
  then obtain e where e: "a = JObj e" using wf_times_dict by blast
  from assms e obtain cs where cs: "map_of e ''clients'' = Some cs" "wf_clients t cs"
    by (auto simp: wf_ap_def split: option.splits)
  then obtain cl where "cs = JObj cl" by (cases cs) (simp_all add: wf_clients_def)
  with wt e cs that show ?thesis by (auto simp: wf_times_iff)
qed

lemma process_ap_wf:
  assumes wf: "wf_memory t (memory s)" and le: "t \<le> now"
  shows "(\<exists>n'. fst (process_ap now ob n s) = Inr n')
       \<and> wf_memory now (memory (snd (process_ap now ob n s)))
       \<and> mem_grows (memory s) (memory (snd (process_ap now ob n s)))"
proof -
  let ?mac = "lower (ap_mac ob)"
  from wf obtain al where m: "memory s = JObj al"
    by (cases "memory s") (simp_all add: wf_memory_def)
  show ?thesis
  proof (cases "?mac = []")
    case True
    with wf_memory_mono [OF wf le] mem_grows_refl [OF wf] show ?thesis
      by (simp add: process_ap_def)
  next
    case ne: False
    show ?thesis
    proof (cases "map_of al ?mac")
      case None
      let ?al1 = "AList.update ?mac (new_ap_entry ob now) al"
      let ?s1 = "s\<lparr>memory := JObj ?al1, memory_is_dirty := True\<rparr>"
      obtain e0 where e0: "new_ap_entry ob now = JObj e0"
        and cl0: "map_of e0 ''clients'' = Some (JObj [])"
        and f0: "map_of e0 ''first_seen'' = Some (JNum now)"
          "map_of e0 ''last_seen'' = Some (JNum now)"
        by (simp add: new_ap_entry_def)
      note t = touch_ap_new [OF m None, of now ob n]
      have m1: "memory ?s1 = JObj ?al1" by simp
      have l1: "map_of ?al1 ?mac = Some (JObj e0)" by (simp add: update_conv' e0)
      have ad: "all_dicts []" by (simp add: all_dicts_def)
      let ?cl' = "clients_after now (clients ob) []"
      let ?a' = "JObj (AList.update ''clients'' (JObj ?cl') e0)"
      from process_clients_effect [OF m1 l1 cl0 ad, of now "clients ob"]
      have ok: "fst (process_clients now ?mac (clients ob) ?s1) = Inr ()"
        and mem: "memory (snd (process_clients now ?mac (clients ob) ?s1))
                    = JObj (AList.update ?mac ?a' al)"
        by simp_all
      have "wf_clients now (JObj [])" by (simp add: wf_clients_def)
      from clients_after_wf_grows [OF this order_refl, of "clients ob"]
      have "wf_clients now (JObj ?cl')" by simp
      with f0 have wa: "wf_ap now ?a'"
        by (simp add: wf_ap_def wf_times_iff update_conv')
      from memory_update_wf_grows [OF wf [unfolded m] le wa, of ?mac] None
        process_ap_snd [OF ne t] ok mem m
      show ?thesis by simp
    next
      case (Some a)
      from wf m Some have "wf_ap t a" by (auto dest: wf_memory_lookup)
      then obtain e f l cl where e: "a = JObj e"
        and fl: "map_of e ''first_seen'' = Some (JNum f)" "map_of e ''last_seen'' = Some (JNum l)"
          "f \<le> l" "l \<le> t"
        and cl: "map_of e ''clients'' = Some (JObj cl)" and wcl: "wf_clients t (JObj cl)"
        by (rule wf_ap_cases)
      let ?e1 = "update_ap_entry ob now e"
      let ?al1 = "AList.update ?mac (JObj ?e1) al"
      let ?s1 = "s\<lparr>memory := JObj ?al1\<rparr>"
      from Some e have old: "map_of al ?mac = Some (JObj e)" by simp
      note t = touch_ap_known [OF m old, of now ob n]
      have m1: "memory ?s1 = JObj ?al1" by simp
      have l1: "map_of ?al1 ?mac = Some (JObj ?e1)" by (simp add: update_conv')
      have cl1: "map_of ?e1 ''clients'' = Some (JObj cl)"
        using cl by (simp add: update_ap_entry_fields(4))
      let ?cl' = "clients_after now (clients ob) cl"
      let ?a' = "JObj (AList.update ''clients'' (JObj ?cl') ?e1)"
      from process_clients_effect [OF m1 l1 cl1 wf_clients_all_dicts [OF wcl], of now "clients ob"]
      have ok: "fst (process_clients now ?mac (clients ob) ?s1) = Inr ()"
        and mem: "memory (snd (process_clients now ?mac (clients ob) ?s1))
                    = JObj (AList.update ?mac ?a' al)"
        by simp_all
      note cg = clients_after_wf_grows [OF wcl le, of "clients ob"]
      have f1: "map_of ?e1 ''first_seen'' = Some (JNum f)"
        "map_of ?e1 ''last_seen'' = Some (JNum now)"
        using fl by (simp_all add: update_ap_entry_fields)
      from f1 fl le cg have wa: "wf_ap now ?a'"
        by (simp add: wf_ap_def wf_times_iff update_conv')
      from f1 fl le cg cl have al: "ap_le a ?a'"
        by (simp add: e ap_le_def seen_le_def seen_def update_conv')
      from memory_update_wf_grows [OF wf [unfolded m] le wa, of ?mac] al Some
        process_ap_snd [OF ne t] ok mem m
      show ?thesis by simp
    qed
  qed
qed

lemma process_aps_wf:
  assumes "wf_memory t (memory s)" and "t \<le> now"
  shows "wf_memory now (memory (snd (process_aps now obs n s)))
       \<and> mem_grows (memory s) (memory (snd (process_aps now obs n s)))"
  using assms
proof (induction obs arbitrary: s n t)
  case Nil
  then show ?case by (auto intro: wf_memory_mono mem_grows_refl)
next
  case (Cons ob obs)
  from process_ap_wf [OF Cons.prems, of ob n] obtain n' s1 where
    p: "process_ap now ob n s = (Inr n', s1)" and w1: "wf_memory now (memory s1)"
    and g1: "mem_grows (memory s) (memory s1)"
    by (cases "process_ap now ob n s") auto
  from Cons.IH [OF w1 order_refl, of n'] p g1 show ?case
    by (auto intro: mem_grows_trans)
qed

lemma ingest_wf:
  assumes "wf_memory t (memory s)" and "t \<le> b_now b"
  shows "wf_memory (b_now b) (memory (ingest s b))
       \<and> mem_grows (memory s) (memory (ingest s b))"
proof (cases "ready s")
  case True
  let ?s0 = "if b_now b - last_activity_check s > 30
             then s\<lparr>last_activity_check := b_now b\<rparr> else s"
  have "memory ?s0 = memory s" by simp
  with process_aps_wf [of t ?s0 "b_now b" "b_aps b" 0] assms handler_memory [OF True]
  show ?thesis by (simp add: ingest_def)
next
  case False
  with assms show ?thesis
    by (auto simp: ingest_def on_unfiltered_ap_list_def intro: wf_memory_mono mem_grows_refl)
qed

lemma ingest_all_wf:
  assumes "wf_memory t (memory s)" and "sorted (t # map b_now bs)"
  shows "wf_memory (last (t # map b_now bs)) (memory (ingest_all s bs))
       \<and> mem_grows (memory s) (memory (ingest_all s bs))"
  using assms
proof (induction bs arbitrary: s t)
  case Nil
  then show ?case by (auto simp: ingest_all_def intro: mem_grows_refl)
next
  case (Cons b bs)
  from Cons.prems have le: "t \<le> b_now b" and so: "sorted (b_now b # map b_now bs)"
    by simp_all
  note i = ingest_wf [OF Cons.prems(1) le]
  from Cons.IH [of "b_now b" "ingest s b"] i so show ?case
    by (auto simp: ingest_all_def intro: mem_grows_trans)
qed

text \<open>
  C8. A sequence of batches with non-decreasing time stamps, ingested from a store whose
  records are well formed with last-seen at most the first time stamp (the empty store
  is one). Between any two points of the sequence every AP record, and every client
  record under it, is still there with the same first-seen and a last-seen that has not
  decreased (\<^const>\<open>mem_grows\<close>); and at every point every record has first-seen at most
  last-seen (\<^const>\<open>wf_memory\<close>).
\<close>

theorem seen_times_monotone:
  assumes "wf_memory t0 (memory s)" and "sorted (t0 # map b_now bs)"
  shows "\<forall>i j. i \<le> j \<and> j \<le> length bs \<longrightarrow>
           mem_grows (memory (ingest_all s (take i bs))) (memory (ingest_all s (take j bs)))
         \<and> wf_memory (last (t0 # map b_now (take j bs))) (memory (ingest_all s (take j bs)))"
proof (intro allI impI)
  fix i j
  assume ij: "i \<le> j \<and> j \<le> length bs"
  define xs where "xs = take i bs"
  define ys where "ys = drop i (take j bs)"
  have "take i (take j bs) = take i bs"
    using ij by (simp add: min_def)
  then have tj: "take j bs = xs @ ys"
    using append_take_drop_id [of i "take j bs"] by (simp add: xs_def ys_def)
  have "sorted (take (Suc j) (t0 # map b_now bs))"
    using assms(2) by (rule sorted_wrt_take)
  then have sj: "sorted (t0 # map b_now (take j bs))"
    by (simp add: take_map)
  then have sa: "sorted ((t0 # map b_now xs) @ map b_now ys)"
    by (simp add: tj)
  from sa have sx: "sorted (t0 # map b_now xs)"
    by (simp only: sorted_append)
  have "last (t0 # map b_now xs) \<in> set (t0 # map b_now xs)"
    by (rule last_in_set) simp
  with sa have sy: "sorted (last (t0 # map b_now xs) # map b_now ys)"
    by (simp only: sorted_append sorted_simps) blast
  from ingest_all_wf [OF assms(1) sx]
  have wx: "wf_memory (last (t0 # map b_now xs)) (memory (ingest_all s xs))" by simp
  have run: "ingest_all s (take j bs) = ingest_all (ingest_all s xs) ys"
    by (simp add: tj ingest_all_def)
  from ingest_all_wf [OF wx sy] ingest_all_wf [OF assms(1) sj]
  show "mem_grows (memory (ingest_all s (take i bs))) (memory (ingest_all s (take j bs)))
      \<and> wf_memory (last (t0 # map b_now (take j bs))) (memory (ingest_all s (take j bs)))"
    by (simp add: run flip: xs_def)
qed

lemma ex_batches_run:
  "memory (ingest_all ex_fresh ex_batches) =
     JObj [(''aa:bb'', JObj [(''ssid'', JStr ''HomeNet''), (''first_seen'', JNum 10),
        (''last_seen'', JNum 20),
        (''rssi'', JNum (- 70)), (''channel'', JNum 6), (''encryption'', JStr ''WPA2''),
        (''clients'', JObj [(''c1'', JObj [(''first_seen'', JNum 10), (''last_seen'', JNum 20),
            (''packets'', JNum 0)])]),
        (''attack_history'', JArr []),
        (''handshakes'', JNum 0), (''pmkid_attempts'', JNum 0), (''score'', JNum 0)])]"
  by (simp add: ingest_all_def ingest_def ex_batches_def ex_fresh_def init_def
      on_unfiltered_ap_list_def process_ap_def touch_ap_def touch_client_def lower_ex ex_ap_def
      ex_blank_def new_ap_entry_def new_client_entry_def update_ap_entry_def
      update_activity_history_def modes_def Let_def)

theorem seen_times_monotone_witness:
  "wf_memory 0 (memory ex_fresh) \<and> sorted (0 # map b_now ex_batches)
   \<and> mem_grows (memory (ingest_all ex_fresh (take 1 ex_batches)))
        (memory (ingest_all ex_fresh (take 2 ex_batches)))
   \<and> wf_memory 20 (memory (ingest_all ex_fresh (take 2 ex_batches)))
   \<and> field_of (memory (ingest_all ex_fresh ex_batches)) ''aa:bb'' ''first_seen'' = Some (JNum 10)
   \<and> field_of (memory (ingest_all ex_fresh ex_batches)) ''aa:bb'' ''last_seen'' = Some (JNum 20)"
proof -
  have w: "wf_memory 0 (memory ex_fresh)"
    by (simp add: ex_fresh_def init_def wf_memory_def)
  have so: "sorted (0 # map b_now ex_batches)"
    by (simp add: ex_batches_def)
  have n: "length ex_batches = 2" "last (0 # map b_now (take 2 ex_batches)) = 20"
    by (simp_all add: ex_batches_def)
  from seen_times_monotone [OF w so]
  have "(1::nat) \<le> 2 \<and> 2 \<le> length ex_batches \<longrightarrow>
           mem_grows (memory (ingest_all ex_fresh (take 1 ex_batches)))
             (memory (ingest_all ex_fresh (take 2 ex_batches)))
         \<and> wf_memory (last (0 # map b_now (take 2 ex_batches)))
             (memory (ingest_all ex_fresh (take 2 ex_batches)))"
    by blast
  with w so n show ?thesis
    by (simp add: ex_batches_run field_of_def)
qed

subsection \<open>Ingest of a batch\<close>

lemma touch_ap_other:
  "k \<noteq> mac \<Longrightarrow> jlookup (memory (snd (touch_ap now ob mac n s))) k = jlookup (memory s) k"
  by (auto simp: touch_ap_def update_conv' split: json.splits option.splits)

lemma touch_client_other:
  "k \<noteq> mac \<Longrightarrow> jlookup (memory (snd (touch_client now mac cmac s))) k = jlookup (memory s) k"
  by (auto simp: touch_client_def update_conv' split: json.splits option.splits)

lemma process_clients_other:
  "k \<noteq> mac \<Longrightarrow> jlookup (memory (snd (process_clients now mac cs s))) k = jlookup (memory s) k"
proof (induction cs arbitrary: s)
  case Nil
  then show ?case by simp
next
  case (Cons c cs)
  from Cons.IH [OF Cons.prems] touch_client_other [OF Cons.prems, of now "lower (client_mac c)" s]
  show ?case
    by (auto simp: Let_def split: prod.splits sum.splits)
qed

lemma process_ap_other:
  assumes "k \<noteq> lower (ap_mac ob)"
  shows "jlookup (memory (snd (process_ap now ob n s))) k = jlookup (memory s) k"
proof -
  let ?mac = "lower (ap_mac ob)"
  obtain r s1 where t: "touch_ap now ob ?mac n s = (r, s1)" by (cases "touch_ap now ob ?mac n s")
  from touch_ap_other [OF assms, of now ob n s] t
  have a: "jlookup (memory s1) k = jlookup (memory s) k" by simp
  from process_clients_other [OF assms, of now "clients ob" s1] a
  have b: "jlookup (memory (snd (process_clients now ?mac (clients ob) s1))) k = jlookup (memory s) k"
    by simp
  from t a b show ?thesis
    by (auto simp: process_ap_def Let_def split: prod.splits sum.splits)
qed

lemma process_aps_append:
  "process_aps now (xs @ ys) n s =
     (case process_aps now xs n s of
        (Inl e, s') \<Rightarrow> (Inl e, s')
      | (Inr n', s') \<Rightarrow> process_aps now ys n' s')"
  by (induction xs arbitrary: n s) (auto split: prod.splits sum.splits)

lemma process_aps_returns:
  assumes "wf_memory t (memory s)" and "t \<le> now"
  shows "\<exists>n' s'. process_aps now obs n s = (Inr n', s') \<and> wf_memory now (memory s')
           \<and> mem_grows (memory s) (memory s')"
  using assms
proof (induction obs arbitrary: s n t)
  case Nil
  then show ?case by (auto intro: wf_memory_mono mem_grows_refl)
next
  case (Cons ob obs)
  from process_ap_wf [OF Cons.prems, of ob n] obtain n1 s1 where
    p: "process_ap now ob n s = (Inr n1, s1)" and w1: "wf_memory now (memory s1)"
    and g1: "mem_grows (memory s) (memory s1)"
    by (cases "process_ap now ob n s") auto
  from Cons.IH [OF w1 order_refl, of n1] obtain n' s' where
    "process_aps now obs n1 s1 = (Inr n', s')" "wf_memory now (memory s')"
    "mem_grows (memory s1) (memory s')"
    by blast
  with p g1 show ?case by (auto intro: mem_grows_trans)
qed

lemma handler_dirty:
  assumes "ready s"
  shows "memory_is_dirty (on_unfiltered_ap_list s aps now now_h now_s now_m) =
           memory_is_dirty (snd (process_aps now aps 0
             (if now - last_activity_check s > 30 then s\<lparr>last_activity_check := now\<rparr> else s)))"
proof -
  let ?s0 = "if now - last_activity_check s > 30 then s\<lparr>last_activity_check := now\<rparr> else s"
  obtain r s1 where p: "process_aps now aps 0 ?s0 = (r, s1)"
    by (cases "process_aps now aps 0 ?s0")
  have "memory_is_dirty (on_unfiltered_ap_list s aps now now_h now_s now_m) = memory_is_dirty s1"
  proof (cases r)
    case (Inl e)
    with p assms show ?thesis by (simp add: on_unfiltered_ap_list_def)
  next
    case (Inr n)
    with p assms auto_mode_logic_dirty [of "update_activity_history s1 now_h n" now_s now_m]
    show ?thesis
      by (auto simp: on_unfiltered_ap_list_def Let_def update_activity_history_def
          split: prod.splits sum.splits)
  qed
  with p show ?thesis by simp
qed

text \<open>
  C7. A batch handled by \<^verbatim>\<open>on_unfiltered_ap_list\<close> on a ready plugin whose store holds
  well-formed records with time stamps at most \<^verbatim>\<open>now\<close>. No observation raises, so the
  loop handles every observation of the batch and the handler's store and flag are
  those the loop leaves. Take any observation \<^verbatim>\<open>ob\<close> of the batch, with \<^verbatim>\<open>pre\<close> before it
  and \<^verbatim>\<open>post\<close> after it; \<^verbatim>\<open>s1\<close> is the state the loop has reached before \<^verbatim>\<open>ob\<close> and
  \<^verbatim>\<open>s2\<close> the state after it. With an empty identifier nothing changes. With an
  identifier that is no key of the store in \<^verbatim>\<open>s1\<close>, a record is created with first-seen
  and last-seen equal to \<^verbatim>\<open>now\<close>, the given name and signal strength; the flag is set
  and the count of new APs goes up by one. With an identifier that is a key, last-seen
  becomes \<^verbatim>\<open>now\<close> and the signal strength the incoming one; the name becomes the
  incoming one if that is non-empty and stays as it was otherwise; first-seen stays.
  The records under other keys are untouched, and what \<^verbatim>\<open>ob\<close> wrote lasts to the end of
  the batch: every record of \<^verbatim>\<open>s2\<close> is in the final store with the same first-seen, and
  a flag set in \<^verbatim>\<open>s2\<close> is set at the end.
\<close>

theorem ingest_observation:
  assumes "ready s" and "wf_memory t (memory s)" and "t \<le> now"
  shows "(let s0 = (if now - last_activity_check s > 30 then s\<lparr>last_activity_check := now\<rparr> else s);
              mac = lower (ap_mac ob);
              after = on_unfiltered_ap_list s (pre @ ob # post) now now_h now_s now_m
          in \<exists>n1 s1 n2 s2 n3 s3.
               process_aps now pre 0 s0 = (Inr n1, s1)
             \<and> process_aps now (pre @ [ob]) 0 s0 = (Inr n2, s2)
             \<and> process_aps now (pre @ ob # post) 0 s0 = (Inr n3, s3)
             \<and> memory after = memory s3 \<and> memory_is_dirty after = memory_is_dirty s3
             \<and> mem_grows (memory s2) (memory s3) \<and> wf_memory now (memory s3)
             \<and> (memory_is_dirty s2 \<longrightarrow> memory_is_dirty s3)
             \<and> (mac = [] \<longrightarrow> n2 = n1 \<and> s2 = s1)
             \<and> (mac \<noteq> [] \<and> jlookup (memory s1) mac = None \<longrightarrow>
                   n2 = n1 + 1 \<and> memory_is_dirty s2
                 \<and> field_of (memory s2) mac ''first_seen'' = Some (JNum now)
                 \<and> field_of (memory s2) mac ''last_seen'' = Some (JNum now)
                 \<and> field_of (memory s2) mac ''ssid'' = Some (JStr (hostname ob))
                 \<and> field_of (memory s2) mac ''rssi'' = Some (JNum (of_int (rssi ob))))
             \<and> (\<forall>a. mac \<noteq> [] \<and> jlookup (memory s1) mac = Some a \<longrightarrow>
                   n2 = n1
                 \<and> field_of (memory s2) mac ''last_seen'' = Some (JNum now)
                 \<and> field_of (memory s2) mac ''rssi'' = Some (JNum (of_int (rssi ob)))
                 \<and> field_of (memory s2) mac ''ssid''
                     = (if hostname ob \<noteq> [] then Some (JStr (hostname ob)) else jlookup a ''ssid'')
                 \<and> field_of (memory s2) mac ''first_seen'' = jlookup a ''first_seen'')
             \<and> (\<forall>k. k \<noteq> mac \<longrightarrow> jlookup (memory s2) k = jlookup (memory s1) k))"
proof -
  let ?s0 = "if now - last_activity_check s > 30 then s\<lparr>last_activity_check := now\<rparr> else s"
  let ?mac = "lower (ap_mac ob)"
  let ?after = "on_unfiltered_ap_list s (pre @ ob # post) now now_h now_s now_m"
  have w0: "wf_memory t (memory ?s0)" using assms(2) by simp
  from process_aps_returns [OF w0 assms(3), of pre 0] obtain n1 s1 where
    p1: "process_aps now pre 0 ?s0 = (Inr n1, s1)" and w1: "wf_memory now (memory s1)"
    by blast
  from process_ap_wf [OF w1 order_refl, of ob n1] obtain n2 s2 where
    p2: "process_ap now ob n1 s1 = (Inr n2, s2)" and w2: "wf_memory now (memory s2)"
    by (cases "process_ap now ob n1 s1") auto
  from process_aps_returns [OF w2 order_refl, of post n2] obtain n3 s3 where
    p3: "process_aps now post n2 s2 = (Inr n3, s3)" and w3: "wf_memory now (memory s3)"
    and g3: "mem_grows (memory s2) (memory s3)"
    by blast
  have a: "process_aps now (pre @ [ob]) 0 ?s0 = (Inr n2, s2)"
    using p1 p2 by (simp add: process_aps_append)
  have "process_aps now ((pre @ [ob]) @ post) 0 ?s0 = (Inr n3, s3)"
    using a p3 by (simp only: process_aps_append prod.case sum.case)
  then have b: "process_aps now (pre @ ob # post) 0 ?s0 = (Inr n3, s3)" by simp
  have c: "memory ?after = memory s3" "memory_is_dirty ?after = memory_is_dirty s3"
    using handler_memory [OF assms(1), of "pre @ ob # post" now now_h now_s now_m]
      handler_dirty [OF assms(1), of "pre @ ob # post" now now_h now_s now_m] b
    by simp_all
  have d: "memory_is_dirty s2 \<longrightarrow> memory_is_dirty s3"
    using process_aps_dirty [of s2 now post n2] p3 by simp
  from w1 obtain al where m1: "memory s1 = JObj al"
    by (cases "memory s1") (simp_all add: wf_memory_def)
  note eff = process_ap_effect [of ob now n1 s1 al]
  have e: "?mac = [] \<longrightarrow> n2 = n1 \<and> s2 = s1"
    using eff p2 by simp
  have f: "?mac \<noteq> [] \<and> jlookup (memory s1) ?mac = None \<longrightarrow>
                   n2 = n1 + 1 \<and> memory_is_dirty s2
                 \<and> field_of (memory s2) ?mac ''first_seen'' = Some (JNum now)
                 \<and> field_of (memory s2) ?mac ''last_seen'' = Some (JNum now)
                 \<and> field_of (memory s2) ?mac ''ssid'' = Some (JStr (hostname ob))
                 \<and> field_of (memory s2) ?mac ''rssi'' = Some (JNum (of_int (rssi ob)))"
    using eff p2 m1 by simp
  have g: "n2 = n1
         \<and> field_of (memory s2) ?mac ''last_seen'' = Some (JNum now)
         \<and> field_of (memory s2) ?mac ''rssi'' = Some (JNum (of_int (rssi ob)))
         \<and> field_of (memory s2) ?mac ''ssid''
             = (if hostname ob \<noteq> [] then Some (JStr (hostname ob)) else jlookup a ''ssid'')
         \<and> field_of (memory s2) ?mac ''first_seen'' = jlookup a ''first_seen''"
    if ne: "?mac \<noteq> []" and l: "jlookup (memory s1) ?mac = Some a" for a
  proof -
    from l m1 have la: "map_of al ?mac = Some a" by simp
    with w1 m1 have "wf_ap now a" by (auto dest: wf_memory_lookup)
    then obtain e cl where ae: "a = JObj e" and cl: "map_of e ''clients'' = Some (JObj cl)"
      and wcl: "wf_clients now (JObj cl)"
      by (rule wf_ap_cases)
    from process_ap_effect [of ob now n1 s1 al e] ne m1 la ae cl wf_clients_all_dicts [OF wcl] p2
    show ?thesis by simp
  qed
  have h: "\<forall>k. k \<noteq> ?mac \<longrightarrow> jlookup (memory s2) k = jlookup (memory s1) k"
    using process_ap_other [of _ ob now n1 s1] p2 by simp
  from p1 a b c d e f g h g3 w3 show ?thesis
    unfolding Let_def by blast
qed

lemma lower_ex_new: "lower ''CC:DD'' = ''cc:dd''"
  by code_simp

lemma lower_Nil: "lower [] = []"
  by (simp add: lower_def)

lemma ex_seen_run:
  "memory (on_unfiltered_ap_list ex_seen [ex_ap\<lparr>ap_mac := []\<rparr>, ex_blank, ex_new] 200 200 200 200) =
     JObj [(''aa:bb'', JObj [(''ssid'', JStr ''HomeNet''), (''first_seen'', JNum 100),
        (''last_seen'', JNum 200),
        (''rssi'', JNum (- 70)), (''channel'', JNum 6), (''encryption'', JStr ''WPA2''),
        (''clients'', JObj [(''c1'', JObj [(''first_seen'', JNum 200), (''last_seen'', JNum 200),
            (''packets'', JNum 0)])]),
        (''attack_history'', JArr []),
        (''handshakes'', JNum 0), (''pmkid_attempts'', JNum 0), (''score'', JNum 0)]),
      (''cc:dd'', JObj [(''ssid'', JStr ''Cafe''), (''first_seen'', JNum 200),
        (''last_seen'', JNum 200),
        (''rssi'', JNum (- 60)), (''channel'', JNum 11), (''encryption'', JStr ''OPEN''),
        (''clients'', JObj []), (''attack_history'', JArr []),
        (''handshakes'', JNum 0), (''pmkid_attempts'', JNum 0), (''score'', JNum 0)])]"
  by (simp add: ex_seen_def init_def
      on_unfiltered_ap_list_def process_ap_def touch_ap_def touch_client_def lower_ex lower_ex_new
      ex_ap_def ex_new_def lower_Nil
      ex_blank_def new_ap_entry_def new_client_entry_def update_ap_entry_def
      update_activity_history_def modes_def Let_def)

theorem ingest_observation_witness:
  "ready ex_seen \<and> wf_memory 100 (memory ex_seen) \<and> (100 :: real) \<le> 200
   \<and> (\<exists>n s'. process_aps 200 [ex_ap\<lparr>ap_mac := []\<rparr>, ex_blank, ex_new] 0
                 (ex_seen\<lparr>last_activity_check := 200\<rparr>) = (Inr n, s')
          \<and> memory (on_unfiltered_ap_list ex_seen [ex_ap\<lparr>ap_mac := []\<rparr>, ex_blank, ex_new]
                      200 200 200 200) = memory s')
   \<and> field_of (memory (on_unfiltered_ap_list ex_seen [ex_ap\<lparr>ap_mac := []\<rparr>, ex_blank, ex_new]
                  200 200 200 200)) ''aa:bb'' ''last_seen'' = Some (JNum 200)
   \<and> field_of (memory (on_unfiltered_ap_list ex_seen [ex_ap\<lparr>ap_mac := []\<rparr>, ex_blank, ex_new]
                  200 200 200 200)) ''aa:bb'' ''first_seen'' = Some (JNum 100)
   \<and> field_of (memory (on_unfiltered_ap_list ex_seen [ex_ap\<lparr>ap_mac := []\<rparr>, ex_blank, ex_new]
                  200 200 200 200)) ''aa:bb'' ''ssid'' = Some (JStr ''HomeNet'')
   \<and> field_of (memory (on_unfiltered_ap_list ex_seen [ex_ap\<lparr>ap_mac := []\<rparr>, ex_blank, ex_new]
                  200 200 200 200)) ''aa:bb'' ''rssi'' = Some (JNum (- 70))
   \<and> field_of (memory (on_unfiltered_ap_list ex_seen [ex_ap\<lparr>ap_mac := []\<rparr>, ex_blank, ex_new]
                  200 200 200 200)) ''cc:dd'' ''first_seen'' = Some (JNum 200)
   \<and> field_of (memory (on_unfiltered_ap_list ex_seen [ex_ap\<lparr>ap_mac := []\<rparr>, ex_blank, ex_new]
                  200 200 200 200)) ''cc:dd'' ''last_seen'' = Some (JNum 200)"
proof -
  have r: "ready ex_seen" and lc: "last_activity_check ex_seen = 0"
    by (simp_all add: ex_seen_def init_def)
  have w: "wf_memory 100 (memory ex_seen)"
    by (simp add: ex_seen_def init_def wf_memory_def wf_ap_def wf_clients_def wf_times_def
        seen_def new_ap_entry_def ex_ap_def)
  have le: "(100 :: real) \<le> 200" by simp
  from ingest_observation [OF r w le, of "ex_new" "[ex_ap\<lparr>ap_mac := []\<rparr>, ex_blank]" "[]"
      200 200 200]
  obtain n3 s3 where
    "process_aps 200 ([ex_ap\<lparr>ap_mac := []\<rparr>, ex_blank] @ [ex_new]) 0
       (if 200 - last_activity_check ex_seen > 30 then ex_seen\<lparr>last_activity_check := 200\<rparr>
        else ex_seen) = (Inr n3, s3)"
    "memory (on_unfiltered_ap_list ex_seen ([ex_ap\<lparr>ap_mac := []\<rparr>, ex_blank] @ [ex_new])
        200 200 200 200) = memory s3"
    unfolding Let_def by blast
  then have p: "\<exists>n s'. process_aps 200 [ex_ap\<lparr>ap_mac := []\<rparr>, ex_blank, ex_new] 0
                 (ex_seen\<lparr>last_activity_check := 200\<rparr>) = (Inr n, s')
          \<and> memory (on_unfiltered_ap_list ex_seen [ex_ap\<lparr>ap_mac := []\<rparr>, ex_blank, ex_new]
                      200 200 200 200) = memory s'"
    by (simp add: lc)
  from r w le p show ?thesis
    by (simp add: ex_seen_run field_of_def)
qed

end
